theory Spec2Isabelle
  imports Main "HOL-Library.Word"
begin

unbundle bit_operations_syntax

section \<open>The device-wide barrier: \<open>DeviceSyncer\<close> (concurrency_device.hpp)\<close>

subsection \<open>The object and the primitives \<open>sync\<close> uses\<close>

text \<open>
  The three fields of \<open>struct DeviceSyncer\<close>, in declaration order: \<open>volatile int flag_\<close>,
  \<open>unsigned int count_\<close>, \<open>int isIncFlag_\<close> (the trailing underscore of the source names is
  dropped). All three are 32-bit.
\<close>

record DeviceSyncer =
  flag :: "32 word"
  count :: "32 word"
  isIncFlag :: "32 word"

text \<open>
  The CUDA intrinsic \<open>atomicInc(addr, val)\<close>: reads \<open>old\<close> at \<open>addr\<close>, stores
  \<open>(old >= val) ? 0 : old + 1\<close> there (an unsigned comparison) and returns \<open>old\<close>, all in
  one atomic transaction. The pair is (returned value, stored value).
\<close>

definition atomicInc :: "32 word \<Rightarrow> 32 word \<Rightarrow> 32 word \<times> 32 word" where
  "atomicInc old val = (old, if val \<le> old then 0 else old + 1)"

datatype poll_result = PollExit | PollFault | PollSpin "64 word"

text \<open>
  Modelled from the spec: the macro \<open>POLL_MAYBE_JAILBREAK(cond, maxSpinCount)\<close> comes from
  poll_device.hpp, which is not among the sources. The specification of step 3(e) says the
  coordinator spins, re-reading the flag, until it observes the target value, or until
  \<open>maxSpinCount\<close> iterations have elapsed with the bound enabled, in which case the call
  fails fatally; a negative \<open>maxSpinCount\<close> disables the bound. The doc comment of \<open>sync\<close>
  says the same (the maximum number of spin counts before asserting; never assert if
  negative). One iteration of that loop: \<open>cond\<close> is the macro's condition as just
  evaluated (true while the flag has not reached the target), \<open>spinCnt\<close> the signed 64-bit
  count of iterations that have elapsed; the count only runs when the bound is enabled.
\<close>

definition poll_iteration :: "64 word \<Rightarrow> bool \<Rightarrow> 64 word \<Rightarrow> poll_result" where
  "poll_iteration maxSpinCount cond spinCnt =
     (if \<not> cond then PollExit
      else if 0 \<le>s maxSpinCount \<and> spinCnt = maxSpinCount then PollFault
      else PollSpin (if 0 \<le>s maxSpinCount then spinCnt + 1 else spinCnt))"

datatype poll_outcome = Completed nat | Faulted nat

text \<open>
  Modelled from the spec: the whole loop of \<open>POLL_MAYBE_JAILBREAK\<close>, iterating
  \<open>poll_iteration\<close>. \<open>cond n\<close> is what the condition evaluates to at its \<open>n\<close>-th
  evaluation (counted from 0): the flag is volatile and written by other units, so each
  evaluation reads it afresh. The loop may run forever; \<open>fuel\<close> bounds the number of
  iterations traced and \<open>None\<close> means the loop is still spinning when it runs out.
  \<open>Completed n\<close>: the wait ended after \<open>n\<close> unsuccessful iterations; \<open>Faulted n\<close>: the
  fatal fault was raised after \<open>n\<close> iterations had elapsed.
\<close>

fun POLL_MAYBE_JAILBREAK ::
  "nat \<Rightarrow> 64 word \<Rightarrow> (nat \<Rightarrow> bool) \<Rightarrow> nat \<Rightarrow> 64 word \<Rightarrow> poll_outcome option" where
  "POLL_MAYBE_JAILBREAK 0 maxSpinCount cond n spinCnt = None"
| "POLL_MAYBE_JAILBREAK (Suc fuel) maxSpinCount cond n spinCnt =
     (case poll_iteration maxSpinCount (cond n) spinCnt of
        PollExit \<Rightarrow> Some (Completed n)
      | PollFault \<Rightarrow> Some (Faulted n)
      | PollSpin k \<Rightarrow> POLL_MAYBE_JAILBREAK fuel maxSpinCount cond (Suc n) k)"

text \<open>
  The declaration \<open>sync(int blockNum, int64_t maxSpinCount = 100000000)\<close>: a call may leave
  the second argument out.
\<close>

definition sync_maxSpinCount :: "64 word option \<Rightarrow> 64 word" where
  "sync_maxSpinCount arg = (case arg of None \<Rightarrow> 100000000 | Some m \<Rightarrow> m)"

subsection \<open>One coordinator thread inside \<open>sync\<close>\<close>

text \<open>
  Where the coordinator (the thread with \<open>threadIdx.x == 0\<close>) of a unit stands. Every
  access to the shared object is a step of its own; \<open>tmp\<close> is the local of line 32.
  \<^item> \<open>Outside\<close>: not inside a call (before it, or returned from it);
  \<^item> \<open>AtInc tmp\<close>: line 32 done, about to execute \<open>atomicInc\<close> (line 34 or 39);
  \<^item> \<open>AtSet tmp\<close>: \<open>atomicInc\<close> returned \<open>maxOldCnt\<close>, about to write the flag (line 35 or 40);
  \<^item> \<open>AtPoll tmp spinCnt\<close>: inside the spin-wait (line 37 or 42);
  \<^item> \<open>AtStore tmp\<close>: the wait is over, about to execute \<open>isIncFlag_ = tmp\<close> (line 44);
  \<^item> \<open>Trapped\<close>: the spin-wait raised the fatal fault.
\<close>

datatype pc =
    Outside
  | is_AtInc: AtInc "32 word"
  | is_AtSet: AtSet "32 word"
  | is_AtPoll: AtPoll "32 word" "64 word"
  | is_AtStore: AtStore "32 word"
  | Trapped

text \<open>
  One step of the coordinator of a unit that runs \<open>sync(blockNum, maxSpinCount)\<close>, on the
  shared object \<open>d\<close>. The two \<open>__syncthreads()\<close> and the \<open>__threadfence()\<close> touch no field
  of the object; the other threads of the unit execute nothing else. The first equation is
  the entry of a call: lines 26 to 32, where \<open>blockNum == 1\<close> returns at once.
\<close>

fun sync_step :: "32 word \<Rightarrow> 64 word \<Rightarrow> DeviceSyncer \<times> pc \<Rightarrow> DeviceSyncer \<times> pc" where
  "sync_step blockNum maxSpinCount (d, Outside) =
     (if blockNum = 1 then (d, Outside)
      else (d, AtInc (isIncFlag d XOR 1)))"
| "sync_step blockNum maxSpinCount (d, AtInc tmp) =
     (let maxOldCnt = blockNum - 1;
          (old, new) = atomicInc (count d) maxOldCnt;
          d' = d\<lparr>count := new\<rparr>
      in if old = maxOldCnt then (d', AtSet tmp) else (d', AtPoll tmp 0))"
| "sync_step blockNum maxSpinCount (d, AtSet tmp) =
     (if tmp \<noteq> 0 then (d\<lparr>flag := 1\<rparr>, AtPoll tmp 0)
      else (d\<lparr>flag := 0\<rparr>, AtPoll tmp 0))"
| "sync_step blockNum maxSpinCount (d, AtPoll tmp spinCnt) =
     (let cond = (if tmp \<noteq> 0 then flag d = 0 else flag d \<noteq> 0)
      in case poll_iteration maxSpinCount cond spinCnt of
           PollExit \<Rightarrow> (d, AtStore tmp)
         | PollFault \<Rightarrow> (d, Trapped)
         | PollSpin k \<Rightarrow> (d, AtPoll tmp k))"
| "sync_step blockNum maxSpinCount (d, AtStore tmp) = (d\<lparr>isIncFlag := tmp\<rparr>, Outside)"
| "sync_step blockNum maxSpinCount (d, Trapped) = (d, Trapped)"

subsection \<open>The units of a kernel, interleaved\<close>

text \<open>
  The units of one kernel share one \<open>DeviceSyncer\<close>. A configuration holds the object and
  where the coordinator of each unit stands; units are numbered from 0. The semantics is
  an interleaving one: one access to the object at a time, each seen by all units at once
  (\<open>count_\<close> is only touched by \<open>atomicInc\<close>, \<open>flag_\<close> is volatile and fenced).

  The remaining fields are history variables. No step reads them; they record what
  happened so that properties of rounds can be stated:
  \<^item> \<open>rets c i\<close>: the number of calls of \<open>sync\<close> unit \<open>i\<close> has returned from, so that the
    call it is in (or will make next) is its call number \<open>Suc (rets c i)\<close>, which is
    its round;
  \<^item> \<open>observed c\<close>: one entry (unit, round) for each \<open>atomicInc\<close> that returned
    \<open>maxOldCnt\<close>, oldest first;
  \<^item> \<open>wrote c\<close>: one entry (unit, round) for each write to \<open>flag_\<close>, oldest first;
  \<^item> \<open>seen c i\<close>: the values of \<open>flag_\<close> that ended the spin-waits of unit \<open>i\<close>, oldest
    first.
\<close>

record config =
  dev :: DeviceSyncer
  pcs :: "nat \<Rightarrow> pc"
  rets :: "nat \<Rightarrow> nat"
  observed :: "(nat \<times> nat) list"
  wrote :: "(nat \<times> nat) list"
  seen :: "nat \<Rightarrow> 32 word list"

definition unit_step :: "32 word \<Rightarrow> 64 word \<Rightarrow> nat \<Rightarrow> config \<Rightarrow> config" where
  "unit_step blockNum maxSpinCount i c =
     (let p = pcs c i;
          (d', p') = sync_step blockNum maxSpinCount (dev c, p);
          round = Suc (rets c i)
      in \<lparr> dev = d',
           pcs = (pcs c)(i := p'),
           rets = (if p' = Outside then (rets c)(i := round) else rets c),
           observed = (if is_AtSet p' then observed c @ [(i, round)] else observed c),
           wrote = (if is_AtSet p then wrote c @ [(i, round)] else wrote c),
           seen = (if is_AtStore p' then (seen c)(i := seen c i @ [flag (dev c)]) else seen c) \<rparr>)"

text \<open>
  The object as zero-filled memory holds it, and the configuration a kernel starts in:
  no unit inside \<open>sync\<close>, nothing recorded.
\<close>

definition zeroed :: DeviceSyncer where
  "zeroed = \<lparr> flag = 0, count = 0, isIncFlag = 0 \<rparr>"

definition start :: "DeviceSyncer \<Rightarrow> config" where
  "start d = \<lparr> dev = d, pcs = (\<lambda>i. Outside), rets = (\<lambda>i. 0), observed = [], wrote = [],
               seen = (\<lambda>i. []) \<rparr>"

text \<open>
  A schedule lists which unit takes the next step. Every unit calls
  \<open>sync(blockNum, maxSpinCount)\<close> again and again with the same arguments; a schedule may
  delay any unit for as long as it likes.
\<close>

definition run :: "32 word \<Rightarrow> 64 word \<Rightarrow> nat list \<Rightarrow> config \<Rightarrow> config" where
  "run blockNum maxSpinCount sched c = foldl (\<lambda>c i. unit_step blockNum maxSpinCount i c) c sched"

subsection \<open>What holds between the steps\<close>

text \<open>The flag value that completes round \<open>r\<close>: 1 for odd rounds, 0 for even ones.\<close>

definition sense :: "nat \<Rightarrow> 32 word" where
  "sense r = (if odd r then 1 else 0)"

text \<open>The number of writes to the flag so far.\<close>

definition flips :: "config \<Rightarrow> nat" where
  "flips c = length (wrote c)"

text \<open>
  A coordinator and the number \<open>r\<close> of calls it has returned from, when the flag has been
  written \<open>R\<close> times.
\<close>

fun unit_ok :: "nat \<Rightarrow> pc \<Rightarrow> nat \<Rightarrow> bool" where
  "unit_ok R Outside r = (r = R)"
| "unit_ok R (AtInc t) r = (r = R \<and> t = sense (Suc R))"
| "unit_ok R (AtSet t) r = (r = R \<and> t = sense (Suc R))"
| "unit_ok R (AtPoll t k) r = (r = R \<and> t = sense (Suc R) \<or> Suc r = R \<and> t = sense R)"
| "unit_ok R (AtStore t) r = (Suc r = R \<and> t = sense R)"
| "unit_ok R Trapped r = (r = R \<or> Suc r = R)"

text \<open>A coordinator that is past its \<open>atomicInc\<close>.\<close>

definition arrived :: "pc \<Rightarrow> bool" where
  "arrived p = (is_AtSet p \<or> is_AtPoll p \<or> p = Trapped)"

text \<open>The units that have incremented the counter in the round that is not yet released.\<close>

definition arrivals :: "nat \<Rightarrow> config \<Rightarrow> nat set" where
  "arrivals N c = {i \<in> {..<N}. rets c i = flips c \<and> arrived (pcs c i)}"

definition inv_flag :: "config \<Rightarrow> bool" where
  "inv_flag c = (flag (dev c) = sense (flips c))"

definition inv_sense :: "nat \<Rightarrow> config \<Rightarrow> bool" where
  "inv_sense N c =
     (isIncFlag (dev c) =
        (if \<exists>i\<in>{..<N}. rets c i = flips c then sense (flips c) else sense (flips c - 1)))"

definition inv_units :: "nat \<Rightarrow> config \<Rightarrow> bool" where
  "inv_units N c = (\<forall>i\<in>{..<N}. unit_ok (flips c) (pcs c i) (rets c i))"

definition inv_count :: "nat \<Rightarrow> config \<Rightarrow> bool" where
  "inv_count N c =
     (unat (count (dev c)) = (if card (arrivals N c) = N then 0 else card (arrivals N c))
      \<and> ((card (arrivals N c) = N) = (\<exists>i\<in>{..<N}. is_AtSet (pcs c i)))
      \<and> (\<forall>i\<in>{..<N}. \<forall>j\<in>{..<N}. is_AtSet (pcs c i) \<longrightarrow> is_AtSet (pcs c j) \<longrightarrow> i = j))"

definition inv_log :: "nat \<Rightarrow> config \<Rightarrow> bool" where
  "inv_log N c =
     (map snd (observed c) = [1..<Suc (length (observed c))]
      \<and> (\<forall>i\<in>{..<N}. is_AtSet (pcs c i) \<longrightarrow> observed c = wrote c @ [(i, Suc (flips c))])
      \<and> ((\<forall>i\<in>{..<N}. \<not> is_AtSet (pcs c i)) \<longrightarrow> observed c = wrote c))"

definition inv_seen :: "nat \<Rightarrow> config \<Rightarrow> bool" where
  "inv_seen N c =
     (\<forall>i\<in>{..<N}. seen c i =
        map sense [1..<Suc (rets c i + (if is_AtStore (pcs c i) then 1 else 0))])"

definition inv :: "nat \<Rightarrow> config \<Rightarrow> bool" where
  "inv N c = (inv_flag c \<and> inv_sense N c \<and> inv_units N c \<and> inv_count N c
              \<and> inv_log N c \<and> inv_seen N c)"

text \<open>
  The local \<open>tmp\<close> (the target flag value of the call) a coordinator holds, if it is inside
  a call; and the flag value that ended a unit's latest spin-wait, which is the initial 0
  of the zero-filled object before its first one.
\<close>

fun target :: "pc \<Rightarrow> 32 word option" where
  "target Outside = None"
| "target (AtInc t) = Some t"
| "target (AtSet t) = Some t"
| "target (AtPoll t k) = Some t"
| "target (AtStore t) = Some t"
| "target Trapped = None"

definition previous_flag :: "32 word list \<Rightarrow> 32 word" where
  "previous_flag vs = (if vs = [] then 0 else last vs)"

subsection \<open>The code around the calls\<close>

text \<open>
  Between its calls of \<open>sync\<close> a unit runs the rest of the kernel. What matters of that
  code here is what it stores to global memory. An action is a step of a unit inside
  \<open>sync\<close>, or a store of a unit that is outside \<open>sync\<close>; a unit that is inside a call
  executes nothing else, so a store scheduled for it does not happen. Memory is
  sequentially consistent, as for the barrier object itself: a store is in memory, for
  every unit, as soon as it is issued. The log \<open>store_log\<close> is a history variable: each
  store with the unit that issued it and the number of that unit's next call of \<open>sync\<close>
  (the store was issued before that call).
\<close>

datatype action = Sync nat | Store nat nat int

fun unit_of :: "action \<Rightarrow> nat" where
  "unit_of (Sync i) = i"
| "unit_of (Store i a v) = i"

datatype store_event =
  StoreEvent (by_unit: nat) (before_call: nat) (address: nat) (stored: int)

record kernel =
  conf :: config
  gmem :: "nat \<Rightarrow> int"
  store_log :: "store_event list"

fun act :: "32 word \<Rightarrow> 64 word \<Rightarrow> action \<Rightarrow> kernel \<Rightarrow> kernel" where
  "act blockNum maxSpinCount (Sync i) k = k\<lparr>conf := unit_step blockNum maxSpinCount i (conf k)\<rparr>"
| "act blockNum maxSpinCount (Store i a v) k =
     (if pcs (conf k) i = Outside
      then k\<lparr>gmem := (gmem k)(a := v),
             store_log := store_log k @ [StoreEvent i (Suc (rets (conf k) i)) a v]\<rparr>
      else k)"

definition exec :: "32 word \<Rightarrow> 64 word \<Rightarrow> action list \<Rightarrow> kernel \<Rightarrow> kernel" where
  "exec blockNum maxSpinCount acts k = foldl (\<lambda>k a. act blockNum maxSpinCount a k) k acts"

definition boot :: "DeviceSyncer \<Rightarrow> (nat \<Rightarrow> int) \<Rightarrow> kernel" where
  "boot d g = \<lparr> conf = start d, gmem = g, store_log = [] \<rparr>"

text \<open>The steps inside \<open>sync\<close> of a list of actions, and memory after a list of stores.\<close>

fun syncs :: "action list \<Rightarrow> nat list" where
  "syncs [] = []"
| "syncs (Sync i # acts) = i # syncs acts"
| "syncs (Store i a v # acts) = syncs acts"

definition replay :: "(nat \<Rightarrow> int) \<Rightarrow> store_event list \<Rightarrow> (nat \<Rightarrow> int)" where
  "replay g es = foldl (\<lambda>m e. m(address e := stored e)) g es"

text \<open>
  A schedule is fair for a while if it can be cut into passes in each of which every
  unit takes at least one step. How far a unit has come is measured by the calls it has
  returned from and by where it stands in the current call; \<open>enough_passes\<close> is a number
  of passes by which every unit has returned from \<open>r\<close> calls or some unit is trapped.
\<close>

definition fair_passes :: "nat \<Rightarrow> nat list list \<Rightarrow> bool" where
  "fair_passes N ps = (\<forall>p\<in>set ps. set p = {..<N})"

definition spin_room :: "64 word \<Rightarrow> nat" where
  "spin_room maxSpinCount = (if 0 \<le>s maxSpinCount then unat maxSpinCount else 0)"

fun stage :: "64 word \<Rightarrow> pc \<Rightarrow> nat" where
  "stage maxSpinCount Outside = 0"
| "stage maxSpinCount (AtInc t) = 1"
| "stage maxSpinCount (AtSet t) = 2"
| "stage maxSpinCount (AtPoll t k) = 3 + unat k"
| "stage maxSpinCount (AtStore t) = 4 + spin_room maxSpinCount"
| "stage maxSpinCount Trapped = 0"

definition position :: "64 word \<Rightarrow> config \<Rightarrow> nat \<Rightarrow> nat" where
  "position maxSpinCount c i =
     rets c i * (5 + spin_room maxSpinCount) + stage maxSpinCount (pcs c i)"

definition progress :: "nat \<Rightarrow> 64 word \<Rightarrow> config \<Rightarrow> nat" where
  "progress N maxSpinCount c = (\<Sum>i<N. position maxSpinCount c i)"

definition enough_passes :: "nat \<Rightarrow> 64 word \<Rightarrow> nat \<Rightarrow> nat" where
  "enough_passes N maxSpinCount r = N * Suc r * (5 + spin_room maxSpinCount)"

definition inv_spin :: "nat \<Rightarrow> 64 word \<Rightarrow> config \<Rightarrow> bool" where
  "inv_spin N maxSpinCount c =
     (\<forall>i\<in>{..<N}. case pcs c i of
                    AtPoll t k \<Rightarrow> (if 0 \<le>s maxSpinCount then k \<le> maxSpinCount else k = 0)
                  | _ \<Rightarrow> True)"

section \<open>The allocation and copy helpers (gpu_utils.hpp)\<close>

subsection \<open>The CUDA runtime the helpers call\<close>

text \<open>
  Pointers and \<open>size_t\<close> are 64-bit, memory is a map from addresses to bytes,
  \<open>cudaError_t\<close> is an enumeration with \<open>cudaSuccess = 0\<close>.
\<close>

type_synonym ptr = "64 word"
type_synonym size_t = "64 word"
type_synonym byte = "8 word"
type_synonym cudaError_t = "32 word"
type_synonym cudaStream_t = nat

definition cudaSuccess :: cudaError_t where
  "cudaSuccess = 0"

definition nullptr :: ptr where
  "nullptr = 0"

datatype cudaStreamCaptureMode =
    cudaStreamCaptureModeGlobal
  | cudaStreamCaptureModeThreadLocal
  | cudaStreamCaptureModeRelaxed

datatype cudaMemcpyKind =
    cudaMemcpyHostToHost
  | cudaMemcpyHostToDevice
  | cudaMemcpyDeviceToHost
  | cudaMemcpyDeviceToDevice
  | cudaMemcpyDefault

text \<open>Work queued on a stream, done when the stream is synchronised.\<close>

datatype stream_op = MemsetOp ptr byte size_t | MemcpyOp ptr ptr size_t

datatype api =
    CudaStreamCreateWithFlags
  | CudaStreamDestroy
  | CudaMalloc
  | HipExtMallocWithFlags
  | CudaMemsetAsync
  | CudaStreamSynchronize
  | CudaHostAlloc
  | CudaFree
  | CudaFreeHost
  | CudaMemcpyAsync

text \<open>
  What the helpers can observe or change of the process and its device: the bytes of
  memory, the live device and pinned-host allocations (pointer and size), the live
  streams, the work queued on them, and the calling thread's stream-capture mode. The last
  field is a history variable: each runtime call of the helpers, with the capture mode the
  thread had when it was issued.
\<close>

record world =
  memory :: "ptr \<Rightarrow> byte"
  device_blocks :: "(ptr \<times> size_t) list"
  host_blocks :: "(ptr \<times> size_t) list"
  streams :: "cudaStream_t list"
  pending :: "(cudaStream_t \<times> stream_op) list"
  capture_mode :: cudaStreamCaptureMode
  issued :: "(api \<times> cudaStreamCaptureMode) list"

text \<open>
  The runtime decides whether a call succeeds and which pointer or handle it hands out.
  Those decisions are arguments of the model: one field per runtime call a helper makes.
\<close>

record outcomes =
  on_streamCreate :: "cudaError_t \<times> cudaStream_t"
  on_malloc :: "cudaError_t \<times> ptr"
  on_memsetAsync :: cudaError_t
  on_streamSynchronize :: cudaError_t
  on_hostAlloc :: "cudaError_t \<times> ptr"
  on_free :: cudaError_t
  on_freeHost :: cudaError_t
  on_memcpyAsync :: cudaError_t

definition note_call :: "api \<Rightarrow> world \<Rightarrow> world" where
  "note_call a w = w\<lparr>issued := issued w @ [(a, capture_mode w)]\<rparr>"

text \<open>The bytes \<open>p, p + 1, \<dots>, p + n - 1\<close>; the comparison is unsigned.\<close>

definition in_block :: "ptr \<Rightarrow> size_t \<Rightarrow> ptr \<Rightarrow> bool" where
  "in_block p n a = (a - p < n)"

fun apply_op :: "(ptr \<Rightarrow> byte) \<Rightarrow> stream_op \<Rightarrow> (ptr \<Rightarrow> byte)" where
  "apply_op m (MemsetOp p v n) = (\<lambda>a. if in_block p n a then v else m a)"
| "apply_op m (MemcpyOp dst src n) = (\<lambda>a. if in_block dst n a then m (src + (a - dst)) else m a)"

text \<open>
  The runtime calls, as the CUDA documentation describes them. Each takes the runtime's
  decision and returns the status, with the value of its out-parameter where it has one.
  A failed call changes nothing. \<open>cudaThreadExchangeStreamCaptureMode\<close> installs the mode
  it is given and hands back the one that was installed. All memory is one address space
  here, so the direction of a copy and the flags of an allocation or a stream change
  nothing.
\<close>

definition cudaThreadExchangeStreamCaptureMode ::
  "cudaStreamCaptureMode \<Rightarrow> world \<Rightarrow> cudaStreamCaptureMode \<times> world" where
  "cudaThreadExchangeStreamCaptureMode mode w = (capture_mode w, w\<lparr>capture_mode := mode\<rparr>)"

definition cudaStreamCreateWithFlags ::
  "cudaError_t \<times> cudaStream_t \<Rightarrow> world \<Rightarrow> (cudaError_t \<times> cudaStream_t) \<times> world" where
  "cudaStreamCreateWithFlags r w =
     (let w1 = note_call CudaStreamCreateWithFlags w
      in if fst r = cudaSuccess then (r, w1\<lparr>streams := snd r # streams w1\<rparr>) else (r, w1))"

definition cudaStreamDestroy :: "cudaStream_t \<Rightarrow> world \<Rightarrow> world" where
  "cudaStreamDestroy stream w =
     (let w1 = note_call CudaStreamDestroy w in w1\<lparr>streams := removeAll stream (streams w1)\<rparr>)"

definition device_malloc ::
  "api \<Rightarrow> size_t \<Rightarrow> cudaError_t \<times> ptr \<Rightarrow> world \<Rightarrow> (cudaError_t \<times> ptr) \<times> world" where
  "device_malloc name bytes r w =
     (let w1 = note_call name w
      in if fst r = cudaSuccess then (r, w1\<lparr>device_blocks := (snd r, bytes) # device_blocks w1\<rparr>)
         else (r, w1))"

definition cudaMalloc ::
  "size_t \<Rightarrow> cudaError_t \<times> ptr \<Rightarrow> world \<Rightarrow> (cudaError_t \<times> ptr) \<times> world" where
  "cudaMalloc = device_malloc CudaMalloc"

definition hipExtMallocWithFlags ::
  "size_t \<Rightarrow> cudaError_t \<times> ptr \<Rightarrow> world \<Rightarrow> (cudaError_t \<times> ptr) \<times> world" where
  "hipExtMallocWithFlags = device_malloc HipExtMallocWithFlags"

definition cudaHostAlloc ::
  "size_t \<Rightarrow> cudaError_t \<times> ptr \<Rightarrow> world \<Rightarrow> (cudaError_t \<times> ptr) \<times> world" where
  "cudaHostAlloc bytes r w =
     (let w1 = note_call CudaHostAlloc w
      in if fst r = cudaSuccess then (r, w1\<lparr>host_blocks := (snd r, bytes) # host_blocks w1\<rparr>)
         else (r, w1))"

definition enqueue ::
  "api \<Rightarrow> cudaStream_t \<Rightarrow> stream_op \<Rightarrow> cudaError_t \<Rightarrow> world \<Rightarrow> (cudaError_t \<times> unit) \<times> world" where
  "enqueue name stream op r w =
     (let w1 = note_call name w
      in if r = cudaSuccess then ((r, ()), w1\<lparr>pending := pending w1 @ [(stream, op)]\<rparr>)
         else ((r, ()), w1))"

definition cudaMemsetAsync ::
  "ptr \<Rightarrow> byte \<Rightarrow> size_t \<Rightarrow> cudaStream_t \<Rightarrow> cudaError_t \<Rightarrow> world \<Rightarrow> (cudaError_t \<times> unit) \<times> world" where
  "cudaMemsetAsync p v n stream = enqueue CudaMemsetAsync stream (MemsetOp p v n)"

definition cudaMemcpyAsync ::
  "ptr \<Rightarrow> ptr \<Rightarrow> size_t \<Rightarrow> cudaMemcpyKind \<Rightarrow> cudaStream_t \<Rightarrow> cudaError_t \<Rightarrow> world
    \<Rightarrow> (cudaError_t \<times> unit) \<times> world" where
  "cudaMemcpyAsync dst src n kind stream = enqueue CudaMemcpyAsync stream (MemcpyOp dst src n)"

definition cudaStreamSynchronize ::
  "cudaStream_t \<Rightarrow> cudaError_t \<Rightarrow> world \<Rightarrow> (cudaError_t \<times> unit) \<times> world" where
  "cudaStreamSynchronize stream r w =
     (let w1 = note_call CudaStreamSynchronize w
      in if r = cudaSuccess
         then ((r, ()),
               w1\<lparr>memory := foldl apply_op (memory w1)
                                (map snd (filter (\<lambda>q. fst q = stream) (pending w1))),
                   pending := filter (\<lambda>q. fst q \<noteq> stream) (pending w1)\<rparr>)
         else ((r, ()), w1))"

definition cudaFree :: "ptr \<Rightarrow> cudaError_t \<Rightarrow> world \<Rightarrow> (cudaError_t \<times> unit) \<times> world" where
  "cudaFree p r w =
     (let w1 = note_call CudaFree w
      in if r = cudaSuccess
         then ((r, ()), w1\<lparr>device_blocks := filter (\<lambda>b. fst b \<noteq> p) (device_blocks w1)\<rparr>)
         else ((r, ()), w1))"

definition cudaFreeHost :: "ptr \<Rightarrow> cudaError_t \<Rightarrow> world \<Rightarrow> (cudaError_t \<times> unit) \<times> world" where
  "cudaFreeHost p r w =
     (let w1 = note_call CudaFreeHost w
      in if r = cudaSuccess
         then ((r, ()), w1\<lparr>host_blocks := filter (\<lambda>b. fst b \<noteq> p) (host_blocks w1)\<rparr>)
         else ((r, ()), w1))"

text \<open>The C library's \<open>memset\<close>: done at once, cannot fail.\<close>

definition memset :: "ptr \<Rightarrow> byte \<Rightarrow> size_t \<Rightarrow> world \<Rightarrow> world" where
  "memset p v n w = w\<lparr>memory := apply_op (memory w) (MemsetOp p v n)\<rparr>"

subsection \<open>Exceptions and scopes\<close>

text \<open>
  \<open>mscclpp::CudaError\<close>, with the command that failed and its status. A helper runs on
  a world and returns either the exception that leaves it or its value, and the world it
  leaves behind.
\<close>

datatype exn = CudaError string cudaError_t

type_synonym 'a helper = "world \<Rightarrow> (exn + 'a) \<times> world"

definition returns :: "'a \<Rightarrow> 'a helper" where
  "returns x w = (Inr x, w)"

text \<open>Sequencing of statements: an exception skips the statements that follow.\<close>

definition and_then :: "'a helper \<Rightarrow> ('a \<Rightarrow> 'b helper) \<Rightarrow> 'b helper" where
  "and_then m f w = (case m w of (Inl e, w1) \<Rightarrow> (Inl e, w1) | (Inr x, w1) \<Rightarrow> f x w1)"

text \<open>
  The macro \<open>MSCCLPP_CUDATHROW(cmd)\<close>: runs \<open>cmd\<close> and throws \<open>CudaError\<close> unless it
  returned \<open>cudaSuccess\<close>.
\<close>

definition MSCCLPP_CUDATHROW ::
  "string \<Rightarrow> (world \<Rightarrow> (cudaError_t \<times> 'a) \<times> world) \<Rightarrow> 'a helper" where
  "MSCCLPP_CUDATHROW cmd_name cmd w =
     (let ((err, x), w1) = cmd w
      in if err \<noteq> cudaSuccess then (Inl (CudaError cmd_name err), w1) else (Inr x, w1))"

text \<open>
  Modelled from the spec: the constructor and destructor of \<open>AvoidCudaGraphCaptureGuard\<close>
  are declared in gpu_utils.hpp and defined in a file that is not among the sources. The
  specification describes an avoid-capture scoped guard around every allocation, copy and
  free; the doc comment of the struct says it exchanges the thread's stream-capture mode
  to \<open>cudaStreamCaptureModeRelaxed\<close> on construction and restores the previous mode on
  destruction, keeping the exchanged mode in its field \<open>mode_\<close> (here
  \<open>saved_mode\<close>). The guard is a local
  object: its destructor runs when the scope is left, by return or by exception.
\<close>

definition AvoidCudaGraphCaptureGuard :: "'a helper \<Rightarrow> 'a helper" where
  "AvoidCudaGraphCaptureGuard scope w =
     (let (saved_mode, w1) = cudaThreadExchangeStreamCaptureMode cudaStreamCaptureModeRelaxed w;
          (r, w2) = scope w1;
          (m, w3) = cudaThreadExchangeStreamCaptureMode saved_mode w2
      in (r, w3))"

text \<open>
  Modelled from the spec: the constructor and destructor of \<open>CudaStreamWithFlags\<close> are
  likewise declared only. The doc comment of the struct calls it a RAII wrapper around
  \<open>cudaStream_t\<close> that calls \<open>cudaStreamDestroy\<close> on destruction. The constructor creates
  the stream and throws if the runtime refuses; then there is no object and no destructor
  runs.
\<close>

definition CudaStreamWithFlags ::
  "cudaError_t \<times> cudaStream_t \<Rightarrow> (cudaStream_t \<Rightarrow> 'a helper) \<Rightarrow> 'a helper" where
  "CudaStreamWithFlags r scope w =
     (case MSCCLPP_CUDATHROW ''cudaStreamCreateWithFlags'' (cudaStreamCreateWithFlags r) w of
        (Inl e, w1) \<Rightarrow> (Inl e, w1)
      | (Inr stream, w1) \<Rightarrow>
          (let (res, w2) = scope stream w1 in (res, cudaStreamDestroy stream w2)))"

subsection \<open>The helpers\<close>

text \<open>
  \<open>detail::cudaCalloc<T>(nelem)\<close>, with \<open>sizeof(T)\<close> as a parameter. The product
  \<open>nelem * sizeof(T)\<close> is computed in \<open>size_t\<close> and wraps around.
\<close>

definition cudaCalloc :: "size_t \<Rightarrow> outcomes \<Rightarrow> size_t \<Rightarrow> ptr helper" where
  "cudaCalloc sizeofT oc nelem =
     AvoidCudaGraphCaptureGuard
       (CudaStreamWithFlags (on_streamCreate oc) (\<lambda>stream.
          and_then (MSCCLPP_CUDATHROW ''cudaMalloc'' (cudaMalloc (nelem * sizeofT) (on_malloc oc)))
            (\<lambda>ptr.
          and_then (MSCCLPP_CUDATHROW ''cudaMemsetAsync''
                     (cudaMemsetAsync ptr 0 (nelem * sizeofT) stream (on_memsetAsync oc)))
            (\<lambda>u.
          and_then (MSCCLPP_CUDATHROW ''cudaStreamSynchronize''
                     (cudaStreamSynchronize stream (on_streamSynchronize oc)))
            (\<lambda>u. returns ptr)))))"

text \<open>
  \<open>detail::cudaExtCalloc<T>(nelem)\<close>; \<open>hip\<close> says whether \<open>__HIP_PLATFORM_AMD__\<close> is
  defined as 1, which selects the allocating call.
\<close>

definition cudaExtCalloc :: "bool \<Rightarrow> size_t \<Rightarrow> outcomes \<Rightarrow> size_t \<Rightarrow> ptr helper" where
  "cudaExtCalloc hip sizeofT oc nelem =
     AvoidCudaGraphCaptureGuard
       (CudaStreamWithFlags (on_streamCreate oc) (\<lambda>stream.
          and_then (if hip
                    then MSCCLPP_CUDATHROW ''hipExtMallocWithFlags''
                           (hipExtMallocWithFlags (nelem * sizeofT) (on_malloc oc))
                    else MSCCLPP_CUDATHROW ''cudaMalloc''
                           (cudaMalloc (nelem * sizeofT) (on_malloc oc)))
            (\<lambda>ptr.
          and_then (MSCCLPP_CUDATHROW ''cudaMemsetAsync''
                     (cudaMemsetAsync ptr 0 (nelem * sizeofT) stream (on_memsetAsync oc)))
            (\<lambda>u.
          and_then (MSCCLPP_CUDATHROW ''cudaStreamSynchronize''
                     (cudaStreamSynchronize stream (on_streamSynchronize oc)))
            (\<lambda>u. returns ptr)))))"

text \<open>\<open>detail::cudaHostCalloc<T>(nelem)\<close>.\<close>

definition cudaHostCalloc :: "size_t \<Rightarrow> outcomes \<Rightarrow> size_t \<Rightarrow> ptr helper" where
  "cudaHostCalloc sizeofT oc nelem =
     AvoidCudaGraphCaptureGuard
       (and_then (MSCCLPP_CUDATHROW ''cudaHostAlloc''
                   (cudaHostAlloc (nelem * sizeofT) (on_hostAlloc oc)))
          (\<lambda>ptr w. returns ptr (memset ptr 0 (nelem * sizeofT) w)))"

text \<open>\<open>CudaDeleter<T>::operator()\<close> and \<open>CudaHostDeleter<T>::operator()\<close>.\<close>

definition CudaDeleter :: "outcomes \<Rightarrow> ptr \<Rightarrow> unit helper" where
  "CudaDeleter oc p =
     AvoidCudaGraphCaptureGuard (MSCCLPP_CUDATHROW ''cudaFree'' (cudaFree p (on_free oc)))"

definition CudaHostDeleter :: "outcomes \<Rightarrow> ptr \<Rightarrow> unit helper" where
  "CudaHostDeleter oc p =
     AvoidCudaGraphCaptureGuard
       (MSCCLPP_CUDATHROW ''cudaFreeHost'' (cudaFreeHost p (on_freeHost oc)))"

text \<open>
  \<open>detail::safeAlloc<T, alloc, Deleter, Memory>(nelem)\<close>. The local \<open>ptr\<close> starts as
  \<open>nullptr\<close> and is assigned only if \<open>alloc\<close> returns; the handler reads \<open>ptr\<close> as it is
  when the exception arrives, calls the deleter if it is not null (an exception of the
  deleter then replaces the one in flight) and rethrows. The value returned is the
  owning smart pointer, which holds \<open>ptr\<close>.
\<close>

definition safeAlloc :: "(size_t \<Rightarrow> ptr helper) \<Rightarrow> (ptr \<Rightarrow> unit helper) \<Rightarrow> size_t \<Rightarrow> ptr helper" where
  "safeAlloc alloc Deleter nelem w =
     (let ptr = nullptr
      in case alloc nelem w of
           (Inl e, w1) \<Rightarrow>
             (if ptr \<noteq> nullptr
              then (case Deleter ptr w1 of
                      (Inl e', w2) \<Rightarrow> (Inl e', w2)
                    | (Inr u, w2) \<Rightarrow> (Inl e, w2))
              else (Inl e, w1))
         | (Inr ptr', w1) \<Rightarrow> (Inr ptr', w1))"

text \<open>
  \<open>allocSharedCuda<T>(count)\<close> and \<open>allocUniqueCuda<T>(count)\<close> (the same but for the
  smart pointer returned), their \<open>Ext\<close> variants, and the allocation that
  \<open>makeSharedCudaHost\<close> and \<open>makeUniqueCudaHost\<close> start with.
\<close>

definition allocSharedCuda :: "size_t \<Rightarrow> outcomes \<Rightarrow> size_t \<Rightarrow> ptr helper" where
  "allocSharedCuda sizeofT oc nelem = safeAlloc (cudaCalloc sizeofT oc) (CudaDeleter oc) nelem"

definition allocExtSharedCuda :: "bool \<Rightarrow> size_t \<Rightarrow> outcomes \<Rightarrow> size_t \<Rightarrow> ptr helper" where
  "allocExtSharedCuda hip sizeofT oc nelem =
     safeAlloc (cudaExtCalloc hip sizeofT oc) (CudaDeleter oc) nelem"

definition allocCudaHost :: "size_t \<Rightarrow> outcomes \<Rightarrow> size_t \<Rightarrow> ptr helper" where
  "allocCudaHost sizeofT oc nelem =
     safeAlloc (cudaHostCalloc sizeofT oc) (CudaHostDeleter oc) nelem"

text \<open>\<open>memcpyCudaAsync<T>(dst, src, count, stream, kind)\<close> and \<open>memcpyCuda<T>(dst, src, count, kind)\<close>.\<close>

definition memcpyCudaAsync ::
  "size_t \<Rightarrow> outcomes \<Rightarrow> ptr \<Rightarrow> ptr \<Rightarrow> size_t \<Rightarrow> cudaStream_t \<Rightarrow> cudaMemcpyKind
    \<Rightarrow> unit helper" where
  "memcpyCudaAsync sizeofT oc dst src nelem stream kind =
     AvoidCudaGraphCaptureGuard
       (MSCCLPP_CUDATHROW ''cudaMemcpyAsync''
          (cudaMemcpyAsync dst src (nelem * sizeofT) kind stream (on_memcpyAsync oc)))"

definition memcpyCuda ::
  "size_t \<Rightarrow> outcomes \<Rightarrow> ptr \<Rightarrow> ptr \<Rightarrow> size_t \<Rightarrow> cudaMemcpyKind \<Rightarrow> unit helper" where
  "memcpyCuda sizeofT oc dst src nelem kind =
     AvoidCudaGraphCaptureGuard
       (CudaStreamWithFlags (on_streamCreate oc) (\<lambda>stream.
          and_then (MSCCLPP_CUDATHROW ''cudaMemcpyAsync''
                     (cudaMemcpyAsync dst src (nelem * sizeofT) kind stream (on_memcpyAsync oc)))
            (\<lambda>u.
          MSCCLPP_CUDATHROW ''cudaStreamSynchronize''
            (cudaStreamSynchronize stream (on_streamSynchronize oc)))))"

subsection \<open>A \<open>DeviceSyncer\<close> in memory\<close>

text \<open>
  The object occupies 12 bytes: \<open>flag_\<close> at offset 0, \<open>count_\<close> at 4, \<open>isIncFlag_\<close> at 8,
  each a little-endian 32-bit integer.
\<close>

definition read_int :: "(ptr \<Rightarrow> byte) \<Rightarrow> ptr \<Rightarrow> 32 word" where
  "read_int m a = word_rcat [m (a + 3), m (a + 2), m (a + 1), m a]"

definition DeviceSyncer_at :: "(ptr \<Rightarrow> byte) \<Rightarrow> ptr \<Rightarrow> DeviceSyncer" where
  "DeviceSyncer_at m p =
     \<lparr> flag = read_int m p, count = read_int m (p + 4), isIncFlag = read_int m (p + 8) \<rparr>"

text \<open>
  The constructor is \<open>DeviceSyncer() = default\<close>, defaulted on its first declaration, and
  no member has an initialiser. So the constructor itself writes nothing, and what the
  construction of an object at \<open>p\<close> does depends on the form of the initialisation:
  \<^item> default-initialisation (\<open>DeviceSyncer d;\<close> or \<open>new (p) DeviceSyncer\<close>) only runs the
    constructor: the storage is left as it is;
  \<^item> value-initialisation (\<open>DeviceSyncer()\<close> or \<open>new (p) DeviceSyncer()\<close>), the
    constructor not being user-provided, first zero-initialises the 12 bytes of the
    object.
\<close>

datatype initialisation = default_initialisation | value_initialisation

definition construct_DeviceSyncer :: "initialisation \<Rightarrow> ptr \<Rightarrow> world \<Rightarrow> world" where
  "construct_DeviceSyncer how p w =
     (case how of
        default_initialisation \<Rightarrow> w
      | value_initialisation \<Rightarrow> memset p 0 12 w)"

text \<open>
  \<open>makeSharedCudaHost<T>(args...)\<close> and \<open>makeUniqueCudaHost<T>(args...)\<close> for
  \<open>T = DeviceSyncer\<close> and no arguments (the two differ in the smart pointer returned):
  one element from \<open>cudaHostCalloc\<close> behind \<open>safeAlloc\<close>, then
  \<open>new (ptr.get()) T()\<close>.
\<close>

definition makeSharedCudaHost :: "outcomes \<Rightarrow> ptr helper" where
  "makeSharedCudaHost oc =
     and_then (safeAlloc (cudaHostCalloc 12 oc) (CudaHostDeleter oc) 1)
       (\<lambda>ptr w. returns ptr (construct_DeviceSyncer value_initialisation ptr w))"

definition makeUniqueCudaHost :: "outcomes \<Rightarrow> ptr helper" where
  "makeUniqueCudaHost oc =
     and_then (safeAlloc (cudaHostCalloc 12 oc) (CudaHostDeleter oc) 1)
       (\<lambda>ptr w. returns ptr (construct_DeviceSyncer value_initialisation ptr w))"

text \<open>
  The array forms \<open>makeSharedCudaHost<T>(count)\<close> and \<open>makeUniqueCudaHost<T[]>(count)\<close>
  with elements of type \<open>DeviceSyncer\<close>: \<open>count\<close> elements from \<open>cudaHostCalloc\<close>, then the
  loop \<open>for (size_t i = 0; i < count; ++i) new (&ptr[i]) TElem();\<close>.
\<close>

definition construct_elements :: "ptr \<Rightarrow> nat \<Rightarrow> world \<Rightarrow> world" where
  "construct_elements p n w =
     foldl (\<lambda>w i. construct_DeviceSyncer value_initialisation (p + 12 * of_nat i) w) w [0..<n]"

definition makeSharedCudaHost_array :: "outcomes \<Rightarrow> size_t \<Rightarrow> ptr helper" where
  "makeSharedCudaHost_array oc nelem =
     and_then (safeAlloc (cudaHostCalloc 12 oc) (CudaHostDeleter oc) nelem)
       (\<lambda>ptr w. returns ptr (construct_elements ptr (unat nelem) w))"

definition makeUniqueCudaHost_array :: "outcomes \<Rightarrow> size_t \<Rightarrow> ptr helper" where
  "makeUniqueCudaHost_array oc nelem =
     and_then (safeAlloc (cudaHostCalloc 12 oc) (CudaHostDeleter oc) nelem)
       (\<lambda>ptr w. returns ptr (construct_elements ptr (unat nelem) w))"

subsection \<open>Running under the guard\<close>

text \<open>
  A piece of code is \<open>plain\<close> if it leaves the thread's capture mode alone and issues its
  runtime calls in the mode it was entered with. It is \<open>guarded\<close> if the mode after it,
  whether it returns or throws, is the mode before it, and every runtime call it issued
  was issued in relaxed mode.
\<close>

definition plain :: "(world \<Rightarrow> 'r \<times> world) \<Rightarrow> bool" where
  "plain f = (\<forall>w. capture_mode (snd (f w)) = capture_mode w
      \<and> (\<exists>new. issued (snd (f w)) = issued w @ new \<and> (\<forall>c\<in>set new. snd c = capture_mode w)))"

definition guarded :: "(world \<Rightarrow> 'r \<times> world) \<Rightarrow> bool" where
  "guarded f = (\<forall>w. capture_mode (snd (f w)) = capture_mode w
      \<and> (\<exists>new. issued (snd (f w)) = issued w @ new
            \<and> (\<forall>c\<in>set new. snd c = cudaStreamCaptureModeRelaxed)))"

text \<open>A world and a runtime whose calls all succeed, to run the helpers on.\<close>

definition example_world :: world where
  "example_world =
     \<lparr> memory = (\<lambda>a. 255), device_blocks = [], host_blocks = [], streams = [], pending = [],
       capture_mode = cudaStreamCaptureModeGlobal, issued = [] \<rparr>"

definition all_succeed :: outcomes where
  "all_succeed =
     \<lparr> on_streamCreate = (0, 7), on_malloc = (0, 4096), on_memsetAsync = 0,
       on_streamSynchronize = 0, on_hostAlloc = (0, 8192), on_free = 0, on_freeHost = 0,
       on_memcpyAsync = 0 \<rparr>"

section \<open>Properties of the barrier\<close>

subsection \<open>The spin-wait\<close>

lemma unat_succ_below:
  fixes k m :: "'a::len word"
  assumes "unat k < unat m"
  shows "unat (k + 1) = Suc (unat k)"
proof -
  have "unat m < 2 ^ LENGTH('a)" by simp
  with assms have "unat k + 1 < 2 ^ LENGTH('a)" by linarith
  then show ?thesis by (simp add: unat_word_ariths)
qed

lemma poll_unfold_spin:
  "poll_iteration ms (cond n) k = PollSpin k' \<Longrightarrow>
   POLL_MAYBE_JAILBREAK (Suc fuel) ms cond n k = POLL_MAYBE_JAILBREAK fuel ms cond (Suc n) k'"
  by simp

lemma poll_fault_from:
  assumes en: "0 \<le>s ms" and all: "\<forall>j. cond j"
  shows "k \<le> ms \<Longrightarrow> unat ms - unat k = m \<Longrightarrow>
    POLL_MAYBE_JAILBREAK (Suc m) ms cond n k = Some (Faulted (n + m))"
proof (induction m arbitrary: n k)
  case 0
  then have "k = ms" by (simp add: word_le_nat_alt word_unat_eq_iff)
  with en all show ?case by (simp add: poll_iteration_def)
next
  case (Suc m)
  then have lt: "unat k < unat ms" by simp
  then have ne: "k \<noteq> ms" by auto
  have u: "unat (k + 1) = Suc (unat k)"
    using lt by (rule unat_succ_below)
  have le: "k + 1 \<le> ms" using lt u by (simp add: word_le_nat_alt)
  have rec: "POLL_MAYBE_JAILBREAK (Suc m) ms cond (Suc n) (k + 1) = Some (Faulted (Suc n + m))"
    by (rule Suc.IH [OF le]) (use Suc.prems u in simp)
  have "poll_iteration ms (cond n) k = PollSpin (k + 1)"
    using en all ne by (simp add: poll_iteration_def)
  then have "POLL_MAYBE_JAILBREAK (Suc (Suc m)) ms cond n k =
      POLL_MAYBE_JAILBREAK (Suc m) ms cond (Suc n) (k + 1)"
    by (rule poll_unfold_spin)
  with rec show ?case by simp
qed

lemma poll_disabled_spins:
  "ms <s 0 \<Longrightarrow> \<forall>j. cond j \<Longrightarrow> POLL_MAYBE_JAILBREAK fuel ms cond n k = None"
  by (induction fuel arbitrary: n k) (auto simp: poll_iteration_def word_sle_eq word_sless_alt)

lemma poll_disabled_no_fault:
  "ms <s 0 \<Longrightarrow> POLL_MAYBE_JAILBREAK fuel ms cond n k \<noteq> Some (Faulted m)"
  by (induction fuel arbitrary: n k) (auto simp: poll_iteration_def word_sle_eq word_sless_alt)

lemma poll_disabled_completes:
  "ms <s 0 \<Longrightarrow> \<not> cond (n + m) \<Longrightarrow> \<forall>j. n \<le> j \<and> j < n + m \<longrightarrow> cond j \<Longrightarrow>
   POLL_MAYBE_JAILBREAK (Suc m) ms cond n k = Some (Completed (n + m))"
proof (induction m arbitrary: n k)
  case 0
  then show ?case by (simp add: poll_iteration_def)
next
  case (Suc m)
  have c: "cond n" using Suc.prems(3) by simp
  have rec: "POLL_MAYBE_JAILBREAK (Suc m) ms cond (Suc n) k = Some (Completed (Suc n + m))"
    by (rule Suc.IH) (use Suc.prems in auto)
  have "poll_iteration ms (cond n) k = PollSpin k"
    using c Suc.prems(1) by (simp add: poll_iteration_def word_sle_eq word_sless_alt)
  then have "POLL_MAYBE_JAILBREAK (Suc (Suc m)) ms cond n k =
      POLL_MAYBE_JAILBREAK (Suc m) ms cond (Suc n) k"
    by (rule poll_unfold_spin)
  with rec show ?case by simp
qed

lemma poll_fault_only:
  "POLL_MAYBE_JAILBREAK fuel ms cond n k = Some (Faulted m) \<Longrightarrow> k \<le> ms \<Longrightarrow>
   0 \<le>s ms \<and> m = n + (unat ms - unat k) \<and> (\<forall>j. n \<le> j \<and> j \<le> m \<longrightarrow> cond j)"
proof (induction fuel arbitrary: n k)
  case 0
  then show ?case by simp
next
  case (Suc fuel)
  show ?case
  proof (cases "poll_iteration ms (cond n) k")
    case PollExit
    with Suc.prems show ?thesis by simp
  next
    case PollFault
    then have "cond n" "0 \<le>s ms" "k = ms"
      by (auto simp: poll_iteration_def split: if_splits)
    moreover have "m = n" using Suc.prems PollFault by simp
    ultimately show ?thesis by auto
  next
    case (PollSpin k')
    then have c: "cond n" and k': "k' = (if 0 \<le>s ms then k + 1 else k)"
      and ne: "\<not> (0 \<le>s ms \<and> k = ms)"
      by (auto simp: poll_iteration_def split: if_splits)
    have rec: "POLL_MAYBE_JAILBREAK fuel ms cond (Suc n) k' = Some (Faulted m)"
      using Suc.prems(1) PollSpin by simp
    show ?thesis
    proof (cases "0 \<le>s ms")
      case True
      then have nek: "k \<noteq> ms" using ne by simp
      then have lt: "unat k < unat ms"
        using Suc.prems(2) by (simp add: word_le_nat_alt word_unat_eq_iff)
      have u: "unat (k + 1) = Suc (unat k)"
        using lt by (rule unat_succ_below)
      have le: "k' \<le> ms" using lt u k' True by (simp add: word_le_nat_alt)
      from Suc.IH [OF rec le] have
        m: "m = Suc n + (unat ms - unat k')" and rest: "\<forall>j. Suc n \<le> j \<and> j \<le> m \<longrightarrow> cond j"
        by auto
      have m': "m = n + (unat ms - unat k)" using m k' True u lt by simp
      have "cond j" if "n \<le> j" "j \<le> m" for j
      proof (cases "j = n")
        case True
        with c show ?thesis by simp
      next
        case False
        with that rest show ?thesis by simp
      qed
      with True m' show ?thesis by blast
    next
      case False
      then have "ms <s 0" by (simp add: word_sle_eq word_sless_alt)
      with rec poll_disabled_no_fault show ?thesis by blast
    qed
  qed
qed

subsection \<open>The invariant of the interleaved units\<close>


lemma sense_cases: "sense r = 0 \<or> sense r = 1"
  by (simp add: sense_def)

lemma sense_Suc: "sense (Suc r) = sense r XOR 1"
  by (simp add: sense_def)

lemma sense_Suc_neq: "sense (Suc r) \<noteq> sense r"
  by (simp add: sense_def)

lemma sense_nonzero: "(sense r \<noteq> 0) = odd r"
  by (simp add: sense_def)

lemma sense_zero: "(sense r = 0) = even r"
  by (simp add: sense_def)

lemma flips_update [simp]:
  "flips (c\<lparr>dev := d\<rparr>) = flips c"
  "flips (c\<lparr>pcs := p\<rparr>) = flips c"
  "flips (c\<lparr>rets := r\<rparr>) = flips c"
  "flips (c\<lparr>observed := ob\<rparr>) = flips c"
  "flips (c\<lparr>seen := sn\<rparr>) = flips c"
  "flips (c\<lparr>wrote := w\<rparr>) = length w"
  by (simp_all add: flips_def)

lemma arrivals_cong:
  assumes "flips c' = flips c"
    and "\<And>j. j < N \<Longrightarrow>
      (rets c' j = flips c \<and> arrived (pcs c' j)) = (rets c j = flips c \<and> arrived (pcs c j))"
  shows "arrivals N c' = arrivals N c"
  using assms by (auto simp: arrivals_def)

lemma arrivals_insert:
  assumes "flips c' = flips c" and "i < N"
    and "rets c' i = flips c" and "arrived (pcs c' i)"
    and "\<not> arrived (pcs c i)"
    and "\<And>j. j < N \<Longrightarrow> j \<noteq> i \<Longrightarrow> rets c' j = rets c j \<and> pcs c' j = pcs c j"
  shows "arrivals N c' = insert i (arrivals N c)" and "i \<notin> arrivals N c"
proof -
  show "i \<notin> arrivals N c" using assms(5) by (simp add: arrivals_def)
  have "(j \<in> arrivals N c') = (j = i \<or> j \<in> arrivals N c)" for j
  proof (cases "j = i")
    case True
    with assms(1-4) show ?thesis by (simp add: arrivals_def)
  next
    case False
    with assms(1) assms(6) [of j] show ?thesis by (auto simp: arrivals_def)
  qed
  then show "arrivals N c' = insert i (arrivals N c)" by auto
qed

lemma arrivals_empty:
  assumes "\<And>j. j < N \<Longrightarrow> rets c j \<noteq> flips c"
  shows "arrivals N c = {}"
  using assms by (auto simp: arrivals_def)

lemma arrivals_subset: "arrivals N c \<subseteq> {..<N}"
  by (auto simp: arrivals_def)

lemma arrivals_finite: "finite (arrivals N c)"
  by (rule finite_subset [OF arrivals_subset]) simp

lemma arrivals_card_le: "card (arrivals N c) \<le> N"
  using card_mono [OF _ arrivals_subset, of N c] by simp

lemma arrivals_full: "card (arrivals N c) = N \<Longrightarrow> arrivals N c = {..<N}"
  using card_subset_eq [OF _ arrivals_subset, of N c] by simp

lemma arrivals_not_full: "i < N \<Longrightarrow> i \<notin> arrivals N c \<Longrightarrow> card (arrivals N c) < N"
  using arrivals_full [of N c] arrivals_card_le [of N c] by (cases "card (arrivals N c) = N") auto

lemma inv_unitsD: "inv N c \<Longrightarrow> i < N \<Longrightarrow> unit_ok (flips c) (pcs c i) (rets c i)"
  by (simp add: inv_def inv_units_def)

lemma unit_step_Outside:
  assumes "pcs c i = Outside" and "blockNum \<noteq> 1"
  shows "unit_step blockNum maxSpinCount i c =
    c\<lparr>pcs := (pcs c)(i := AtInc (isIncFlag (dev c) XOR 1))\<rparr>"
  using assms by (simp add: unit_step_def)

lemma inv_step_Outside:
  assumes I: "inv N c" and i: "i < N" and p: "pcs c i = Outside"
  shows "inv N (c\<lparr>pcs := (pcs c)(i := AtInc (isIncFlag (dev c) XOR 1))\<rparr>)"
    (is "inv N ?c'")
proof -
  have fl: "flips ?c' = flips c" by simp
  have r: "rets c i = flips c"
    using inv_unitsD [OF I i] p by simp
  have s: "isIncFlag (dev c) = sense (flips c)"
    using I i r by (auto simp: inv_def inv_sense_def)
  have arr: "arrivals N ?c' = arrivals N c"
    by (rule arrivals_cong [OF fl]) (use p in \<open>auto simp: arrived_def\<close>)
  have set: "is_AtSet (pcs ?c' j) = is_AtSet (pcs c j)" for j
    using p by simp
  have "inv_flag ?c'" using I by (simp add: inv_def inv_flag_def)
  moreover have "inv_sense N ?c'" using I by (simp add: inv_def inv_sense_def)
  moreover have "inv_units N ?c'"
    using I r s by (auto simp: inv_def inv_units_def sense_Suc)
  moreover have "inv_count N ?c'"
    using I unfolding inv_def inv_count_def arr set by simp
  moreover have "inv_log N ?c'"
    using I unfolding inv_def inv_log_def set by simp
  moreover have "inv_seen N ?c'"
    using I p by (auto simp: inv_def inv_seen_def)
  ultimately show ?thesis by (simp add: inv_def)
qed

lemma unit_ok_rets: "unit_ok R p r \<Longrightarrow> r = R \<or> Suc r = R"
  by (cases p) auto

lemma inv_no_AtSet:
  assumes I: "inv N c" and i: "i < N" and n: "i \<notin> arrivals N c"
  shows "\<forall>j\<in>{..<N}. \<not> is_AtSet (pcs c j)" and "unat (count (dev c)) = card (arrivals N c)"
    and "card (arrivals N c) < N"
proof -
  show lt: "card (arrivals N c) < N" using i n by (rule arrivals_not_full)
  from I have "(card (arrivals N c) = N) = (\<exists>i\<in>{..<N}. is_AtSet (pcs c i))"
    and "unat (count (dev c)) = (if card (arrivals N c) = N then 0 else card (arrivals N c))"
    by (simp_all add: inv_def inv_count_def)
  with lt show "\<forall>j\<in>{..<N}. \<not> is_AtSet (pcs c j)" "unat (count (dev c)) = card (arrivals N c)"
    by auto
qed

lemma unit_step_AtInc_last:
  assumes "pcs c i = AtInc t" and "count (dev c) = blockNum - 1"
  shows "unit_step blockNum maxSpinCount i c =
    c\<lparr>dev := (dev c)\<lparr>count := 0\<rparr>, pcs := (pcs c)(i := AtSet t),
      observed := observed c @ [(i, Suc (rets c i))]\<rparr>"
  using assms by (simp add: unit_step_def atomicInc_def)

lemma unit_step_AtInc_notlast:
  assumes "pcs c i = AtInc t" and "count (dev c) < blockNum - 1"
  shows "unit_step blockNum maxSpinCount i c =
    c\<lparr>dev := (dev c)\<lparr>count := count (dev c) + 1\<rparr>, pcs := (pcs c)(i := AtPoll t 0)\<rparr>"
proof -
  from assms(2) have "count (dev c) \<noteq> blockNum - 1" "\<not> blockNum - 1 \<le> count (dev c)"
    by auto
  with assms(1) show ?thesis by (simp add: unit_step_def atomicInc_def Let_def)
qed

lemma inv_step_AtInc_last:
  assumes I: "inv N c" and i: "i < N" and p: "pcs c i = AtInc t"
    and last: "unat (count (dev c)) = N - 1"
  shows "inv N (c\<lparr>dev := (dev c)\<lparr>count := 0\<rparr>, pcs := (pcs c)(i := AtSet t),
      observed := observed c @ [(i, Suc (rets c i))]\<rparr>)"
    (is "inv N ?c'")
proof -
  have u: "rets c i = flips c" "t = sense (Suc (flips c))"
    using inv_unitsD [OF I i] p by simp_all
  have ins: "arrivals N ?c' = insert i (arrivals N c)" and notin: "i \<notin> arrivals N c"
    by (rule arrivals_insert [of ?c' c i N]; use i p u in \<open>simp add: arrived_def\<close>)+
  note none = inv_no_AtSet [OF I i notin]
  have card: "card (arrivals N ?c') = N"
    using ins notin none(2,3) last by (simp add: arrivals_finite)
  have ob: "observed c = wrote c"
    using I none(1) by (simp add: inv_def inv_log_def)
  have "inv_flag ?c'" using I by (simp add: inv_def inv_flag_def)
  moreover have "inv_sense N ?c'" using I by (simp add: inv_def inv_sense_def)
  moreover have "inv_units N ?c'"
    using I u by (auto simp: inv_def inv_units_def)
  moreover have "inv_count N ?c'"
    unfolding inv_count_def card using none(1) i by auto
  moreover have "inv_log N ?c'"
    using I none(1) i u ob by (auto simp: inv_def inv_log_def flips_def)
  moreover have "inv_seen N ?c'"
    using I p by (auto simp: inv_def inv_seen_def)
  ultimately show ?thesis by (simp add: inv_def)
qed

lemma inv_step_AtInc_notlast:
  assumes I: "inv N c" and i: "i < N" and p: "pcs c i = AtInc t"
    and nl: "unat (count (dev c)) < N - 1"
    and inc: "unat (count (dev c) + 1) = Suc (unat (count (dev c)))"
  shows "inv N (c\<lparr>dev := (dev c)\<lparr>count := count (dev c) + 1\<rparr>, pcs := (pcs c)(i := AtPoll t 0)\<rparr>)"
    (is "inv N ?c'")
proof -
  have u: "rets c i = flips c" "t = sense (Suc (flips c))"
    using inv_unitsD [OF I i] p by simp_all
  have ins: "arrivals N ?c' = insert i (arrivals N c)" and notin: "i \<notin> arrivals N c"
    by (rule arrivals_insert [of ?c' c i N]; use i p u in \<open>simp add: arrived_def\<close>)+
  note none = inv_no_AtSet [OF I i notin]
  have card: "card (arrivals N ?c') = Suc (unat (count (dev c)))"
    using ins notin none(2) by (simp add: arrivals_finite)
  have "inv_flag ?c'" using I by (simp add: inv_def inv_flag_def)
  moreover have "inv_sense N ?c'" using I by (simp add: inv_def inv_sense_def)
  moreover have "inv_units N ?c'"
    using I u by (auto simp: inv_def inv_units_def)
  moreover have "inv_count N ?c'"
    unfolding inv_count_def card using none(1) i nl inc by auto
  moreover have "inv_log N ?c'"
    using I none(1) by (auto simp: inv_def inv_log_def)
  moreover have "inv_seen N ?c'"
    using I p by (auto simp: inv_def inv_seen_def)
  ultimately show ?thesis by (simp add: inv_def)
qed

lemma unit_step_AtSet:
  assumes "pcs c i = AtSet t"
  shows "unit_step blockNum maxSpinCount i c =
    c\<lparr>dev := (dev c)\<lparr>flag := (if t \<noteq> 0 then 1 else 0)\<rparr>, pcs := (pcs c)(i := AtPoll t 0),
      wrote := wrote c @ [(i, Suc (rets c i))]\<rparr>"
  using assms by (simp add: unit_step_def)

lemma inv_step_AtSet:
  assumes I: "inv N c" and i: "i < N" and p: "pcs c i = AtSet t"
  shows "inv N (c\<lparr>dev := (dev c)\<lparr>flag := (if t \<noteq> 0 then 1 else 0)\<rparr>,
      pcs := (pcs c)(i := AtPoll t 0), wrote := wrote c @ [(i, Suc (rets c i))]\<rparr>)"
    (is "inv N ?c'")
proof -
  have u: "rets c i = flips c" "t = sense (Suc (flips c))"
    using inv_unitsD [OF I i] p by simp_all
  have fl: "flips ?c' = Suc (flips c)" by (simp add: flips_def)
  from I have cnt: "unat (count (dev c)) = (if card (arrivals N c) = N then 0 else card (arrivals N c))"
    and ex: "(card (arrivals N c) = N) = (\<exists>i\<in>{..<N}. is_AtSet (pcs c i))"
    and uniq: "\<forall>i\<in>{..<N}. \<forall>j\<in>{..<N}. is_AtSet (pcs c i) \<longrightarrow> is_AtSet (pcs c j) \<longrightarrow> i = j"
    by (simp_all add: inv_def inv_count_def)
  have "\<exists>j\<in>{..<N}. is_AtSet (pcs c j)"
    by (rule bexI [of _ i]) (use i p in simp_all)
  with ex have full: "card (arrivals N c) = N" by simp
  then have all: "arrivals N c = {..<N}" by (rule arrivals_full)
  have every: "rets c j = flips c \<and> arrived (pcs c j)" if "j < N" for j
    using all that by (auto simp: arrivals_def)
  have only: "\<not> is_AtSet (pcs c j)" if "j < N" "j \<noteq> i" for j
    using uniq that i p by auto
  have emp: "arrivals N ?c' = {}"
    by (rule arrivals_empty) (use every in \<open>simp add: flips_def\<close>)
  have s: "isIncFlag (dev c) = sense (flips c)"
    using I i u by (auto simp: inv_def inv_sense_def)
  from I have log: "inv_log N c" by (simp add: inv_def)
  have ob: "observed c = wrote c @ [(i, Suc (flips c))]"
    using log i p unfolding inv_log_def by (auto simp del: upt_Suc)
  have mp: "map snd (observed c) = [1..<Suc (length (observed c))]"
    using log unfolding inv_log_def by blast
  have "inv_flag ?c'"
    using u sense_cases [of "Suc (flips c)"] by (auto simp add: inv_flag_def flips_def)
  moreover have "inv_sense N ?c'"
    using s every by (auto simp add: inv_sense_def flips_def)
  moreover have "inv_units N ?c'"
    unfolding inv_units_def
  proof
    fix j assume "j \<in> {..<N}"
    then have j: "j < N" by simp
    show "unit_ok (flips ?c') (pcs ?c' j) (rets ?c' j)"
    proof (cases "j = i")
      case True
      with u show ?thesis by (simp add: flips_def)
    next
      case False
      have "unit_ok (flips c) (pcs c j) (rets c j)" by (rule inv_unitsD [OF I j])
      with every [OF j] only [OF j False] False show ?thesis
        by (cases "pcs c j") (auto simp: flips_def arrived_def)
    qed
  qed
  moreover have "inv_count N ?c'"
    unfolding inv_count_def emp using cnt full i only by auto
  moreover have "inv_log N ?c'"
    using ob mp u only by (auto simp: inv_log_def flips_def simp del: upt_Suc)
  moreover have "inv_seen N ?c'"
    using I p by (auto simp: inv_def inv_seen_def)
  ultimately show ?thesis by (simp add: inv_def)
qed

lemma unit_step_AtPoll:
  assumes "pcs c i = AtPoll t k"
  shows "unit_step blockNum maxSpinCount i c =
    (case poll_iteration maxSpinCount (if t \<noteq> 0 then flag (dev c) = 0 else flag (dev c) \<noteq> 0) k of
       PollExit \<Rightarrow> c\<lparr>pcs := (pcs c)(i := AtStore t),
                      seen := (seen c)(i := seen c i @ [flag (dev c)])\<rparr>
     | PollFault \<Rightarrow> c\<lparr>pcs := (pcs c)(i := Trapped)\<rparr>
     | PollSpin k' \<Rightarrow> c\<lparr>pcs := (pcs c)(i := AtPoll t k')\<rparr>)"
  using assms by (simp add: unit_step_def Let_def split: poll_result.split)

lemma inv_step_poll_stay:
  assumes I: "inv N c" and i: "i < N" and p: "pcs c i = AtPoll t k"
    and p': "p' = Trapped \<or> p' = AtPoll t k'"
  shows "inv N (c\<lparr>pcs := (pcs c)(i := p')\<rparr>)"
    (is "inv N ?c'")
proof -
  have u: "unit_ok (flips c) (AtPoll t k) (rets c i)"
    using inv_unitsD [OF I i] p by simp
  have arr: "arrivals N ?c' = arrivals N c"
    by (rule arrivals_cong) (use p p' in \<open>auto simp: arrived_def\<close>)
  have set: "is_AtSet (pcs ?c' j) = is_AtSet (pcs c j)" for j
    using p p' by auto
  have "inv_flag ?c'" using I by (simp add: inv_def inv_flag_def)
  moreover have "inv_sense N ?c'" using I by (simp add: inv_def inv_sense_def)
  moreover have "inv_units N ?c'"
    using I u p' by (auto simp: inv_def inv_units_def)
  moreover have "inv_count N ?c'"
    using I unfolding inv_def inv_count_def arr set by simp
  moreover have "inv_log N ?c'"
    using I unfolding inv_def inv_log_def set by simp
  moreover have "inv_seen N ?c'"
    using I p p' by (auto simp: inv_def inv_seen_def)
  ultimately show ?thesis by (simp add: inv_def)
qed

lemma inv_poll_cond:
  assumes I: "inv N c" and i: "i < N" and p: "pcs c i = AtPoll t k"
  shows "(if t \<noteq> 0 then flag (dev c) = 0 else flag (dev c) \<noteq> 0) = (rets c i = flips c)"
    and "rets c i \<noteq> flips c \<Longrightarrow> Suc (rets c i) = flips c \<and> t = sense (flips c)"
proof -
  have u: "rets c i = flips c \<and> t = sense (Suc (flips c)) \<or> Suc (rets c i) = flips c \<and> t = sense (flips c)"
    using inv_unitsD [OF I i] p by simp
  have f: "flag (dev c) = sense (flips c)" using I by (simp add: inv_def inv_flag_def)
  show "(if t \<noteq> 0 then flag (dev c) = 0 else flag (dev c) \<noteq> 0) = (rets c i = flips c)"
    using u f by (auto simp: sense_def)
  show "rets c i \<noteq> flips c \<Longrightarrow> Suc (rets c i) = flips c \<and> t = sense (flips c)"
    using u by auto
qed

lemma inv_step_poll_exit:
  assumes I: "inv N c" and i: "i < N" and p: "pcs c i = AtPoll t k"
    and ex: "rets c i \<noteq> flips c"
  shows "inv N (c\<lparr>pcs := (pcs c)(i := AtStore t),
      seen := (seen c)(i := seen c i @ [flag (dev c)])\<rparr>)"
    (is "inv N ?c'")
proof -
  have u: "Suc (rets c i) = flips c" "t = sense (flips c)"
    using inv_poll_cond(2) [OF I i p ex] by simp_all
  have f: "flag (dev c) = sense (flips c)" using I by (simp add: inv_def inv_flag_def)
  have arr: "arrivals N ?c' = arrivals N c"
    by (rule arrivals_cong) (use p ex in \<open>auto simp: arrived_def\<close>)
  have set: "is_AtSet (pcs ?c' j) = is_AtSet (pcs c j)" for j
    using p by auto
  have sn: "seen c i = map sense [1..<Suc (rets c i)]"
    using I i p by (auto simp: inv_def inv_seen_def)
  have "inv_flag ?c'" using I by (simp add: inv_def inv_flag_def)
  moreover have "inv_sense N ?c'" using I by (simp add: inv_def inv_sense_def)
  moreover have "inv_units N ?c'"
    using I u by (auto simp: inv_def inv_units_def)
  moreover have "inv_count N ?c'"
    using I unfolding inv_def inv_count_def arr set by simp
  moreover have "inv_log N ?c'"
    using I unfolding inv_def inv_log_def set by simp
  moreover have "inv_seen N ?c'"
    using I sn f u by (auto simp: inv_def inv_seen_def)
  ultimately show ?thesis by (simp add: inv_def)
qed

lemma unit_step_AtStore:
  assumes "pcs c i = AtStore t"
  shows "unit_step blockNum maxSpinCount i c =
    c\<lparr>dev := (dev c)\<lparr>isIncFlag := t\<rparr>, pcs := (pcs c)(i := Outside),
      rets := (rets c)(i := Suc (rets c i))\<rparr>"
  using assms by (simp add: unit_step_def)

lemma inv_step_AtStore:
  assumes I: "inv N c" and i: "i < N" and p: "pcs c i = AtStore t"
  shows "inv N (c\<lparr>dev := (dev c)\<lparr>isIncFlag := t\<rparr>, pcs := (pcs c)(i := Outside),
      rets := (rets c)(i := Suc (rets c i))\<rparr>)"
    (is "inv N ?c'")
proof -
  have u: "Suc (rets c i) = flips c" "t = sense (flips c)"
    using inv_unitsD [OF I i] p by simp_all
  have arr: "arrivals N ?c' = arrivals N c"
    by (rule arrivals_cong) (use p u in \<open>auto simp: arrived_def\<close>)
  have set: "is_AtSet (pcs ?c' j) = is_AtSet (pcs c j)" for j
    using p by auto
  have "inv_flag ?c'" using I by (simp add: inv_def inv_flag_def)
  moreover have "inv_sense N ?c'" using u i by (auto simp add: inv_sense_def)
  moreover have "inv_units N ?c'"
    using I u by (auto simp: inv_def inv_units_def)
  moreover have "inv_count N ?c'"
    using I unfolding inv_def inv_count_def arr set by simp
  moreover have "inv_log N ?c'"
    using I unfolding inv_def inv_log_def set by simp
  moreover have "inv_seen N ?c'"
    using I p by (auto simp: inv_def inv_seen_def)
  ultimately show ?thesis by (simp add: inv_def)
qed

lemma unit_step_Trapped:
  assumes "pcs c i = Trapped"
  shows "unit_step blockNum maxSpinCount i c = c"
  using assms by (simp add: unit_step_def fun_upd_idem)

lemma nonneg_sint_uint:
  fixes b :: "32 word"
  assumes "0 \<le> sint b"
  shows "sint b = uint b" and "uint b < 2 ^ 31"
proof -
  have s: "sint b = signed_take_bit 31 (uint b)" by (simp add: sint_uint)
  with assms have nb: "\<not> bit (uint b) 31" by simp
  then have t: "sint b = take_bit 31 (uint b)"
    using s by (simp add: signed_take_bit_eq_if_positive)
  have lt: "uint b < 2 ^ 32" using uint_lt2p [of b] by simp
  have "take_bit 32 (uint b) = uint b"
    by (rule take_bit_int_eq_self) (use lt in simp_all)
  then have "uint b = take_bit (Suc 31) (uint b)" by simp
  also have "\<dots> = take_bit 31 (uint b)"
    using nb by (simp only: take_bit_Suc_from_most [of 31 "uint b"]) simp
  finally have u: "uint b = take_bit 31 (uint b)" .
  with t show "sint b = uint b" by simp
  have "take_bit 31 (uint b) < 2 ^ 31" by (rule take_bit_int_less_exp)
  with u show "uint b < 2 ^ 31" by simp
qed

lemma sless_one_unat:
  fixes b :: "32 word"
  assumes "1 <s b"
  shows "2 \<le> unat b"
proof -
  have s: "1 < sint b" using assms by (simp add: word_sless_alt)
  then have "0 \<le> sint b" by simp
  note n = nonneg_sint_uint [OF this]
  have i: "int (unat b) = uint b" by simp
  from s n(1) i show "2 \<le> unat b" by linarith
qed

lemma inv_unit_step:
  assumes N: "N = unat blockNum" "2 \<le> N" and I: "inv N c" and i: "i < N"
  shows "inv N (unit_step blockNum maxSpinCount i c)"
proof (cases "pcs c i")
  case Outside
  have "blockNum \<noteq> 1" using N by auto
  with Outside I i show ?thesis
    by (simp add: unit_step_Outside inv_step_Outside)
next
  case (AtInc t)
  have u: "rets c i = flips c" using inv_unitsD [OF I i] AtInc by simp
  have notin: "i \<notin> arrivals N c" using AtInc by (simp add: arrivals_def arrived_def)
  note none = inv_no_AtSet [OF I i notin]
  have b0: "blockNum \<noteq> 0" using N by auto
  then have m: "unat (blockNum - 1) = N - 1" using N by (simp add: unat_minus_one)
  show ?thesis
  proof (cases "count (dev c) = blockNum - 1")
    case True
    then have "unat (count (dev c)) = N - 1" using m by simp
    with True AtInc I i show ?thesis
      by (simp add: unit_step_AtInc_last inv_step_AtInc_last)
  next
    case False
    have "unat (count (dev c)) \<le> N - 1" using none(2,3) by simp
    with False m have lt: "unat (count (dev c)) < unat (blockNum - 1)"
      by (metis le_neq_implies_less word_unat_eq_iff)
    then have w: "count (dev c) < blockNum - 1" by (simp add: word_less_nat_alt)
    have inc: "unat (count (dev c) + 1) = Suc (unat (count (dev c)))"
      using lt by (rule unat_succ_below)
    from lt m have "unat (count (dev c)) < N - 1" by simp
    with w inc AtInc I i show ?thesis
      by (simp add: unit_step_AtInc_notlast inv_step_AtInc_notlast)
  qed
next
  case (AtSet t)
  with I i show ?thesis by (simp add: unit_step_AtSet inv_step_AtSet)
next
  case (AtPoll t k)
  let ?cond = "if t \<noteq> 0 then flag (dev c) = 0 else flag (dev c) \<noteq> 0"
  note cond = inv_poll_cond(1) [OF I i AtPoll]
  show ?thesis
  proof (cases "poll_iteration maxSpinCount ?cond k")
    case PollExit
    then have "\<not> ?cond" by (auto simp: poll_iteration_def split: if_splits)
    with cond have "rets c i \<noteq> flips c" by simp
    from inv_step_poll_exit [OF I i AtPoll this] PollExit AtPoll show ?thesis
      by (simp add: unit_step_AtPoll)
  next
    case PollFault
    from inv_step_poll_stay [OF I i AtPoll, of Trapped] PollFault AtPoll show ?thesis
      by (simp add: unit_step_AtPoll)
  next
    case (PollSpin k')
    from inv_step_poll_stay [OF I i AtPoll, of "AtPoll t k'" k'] PollSpin AtPoll show ?thesis
      by (simp add: unit_step_AtPoll)
  qed
next
  case (AtStore t)
  with I i show ?thesis by (simp add: unit_step_AtStore inv_step_AtStore)
next
  case Trapped
  with I show ?thesis by (simp add: unit_step_Trapped)
qed

lemma inv_start:
  assumes "1 \<le> N"
  shows "inv N (start zeroed)"
proof -
  have emp: "arrivals N (start zeroed) = {}"
    by (auto simp: arrivals_def start_def arrived_def)
  have "inv_count N (start zeroed)"
    unfolding inv_count_def emp using assms by (simp add: start_def zeroed_def)
  moreover have "inv_flag (start zeroed)"
    by (simp add: inv_flag_def start_def zeroed_def flips_def sense_def)
  moreover have "inv_sense N (start zeroed)"
    by (simp add: inv_sense_def start_def zeroed_def flips_def sense_def)
  moreover have "inv_units N (start zeroed)"
    by (simp add: inv_units_def start_def flips_def)
  moreover have "inv_log N (start zeroed)"
    by (simp add: inv_log_def start_def)
  moreover have "inv_seen N (start zeroed)"
    by (simp add: inv_seen_def start_def)
  ultimately show ?thesis by (simp add: inv_def)
qed

lemma run_snoc:
  "run blockNum maxSpinCount (sched @ [i]) c =
   unit_step blockNum maxSpinCount i (run blockNum maxSpinCount sched c)"
  by (simp add: run_def)

lemma inv_run:
  assumes N: "N = unat blockNum" "2 \<le> N"
  shows "\<forall>i\<in>set sched. i < N \<Longrightarrow> inv N (run blockNum maxSpinCount sched (start zeroed))"
proof (induction sched rule: rev_induct)
  case Nil
  show ?case using N inv_start [of N] by (simp add: run_def)
next
  case (snoc i sched)
  then have "inv N (run blockNum maxSpinCount sched (start zeroed))" and "i < N" by simp_all
  then show ?case unfolding run_snoc by (rule inv_unit_step [OF N])
qed

subsection \<open>Claims about single calls\<close>

lemma run_one:
  "dev (run 1 ms sched (start d)) = d \<and>
   pcs (run 1 ms sched (start d)) = (\<lambda>i. Outside) \<and>
   rets (run 1 ms sched (start d)) = count_list sched"
proof (induction sched rule: rev_induct)
  case Nil
  show ?case by (auto simp: run_def start_def)
next
  case (snoc i sched)
  then show ?case
    by (auto simp: run_snoc unit_step_def fun_upd_idem)
qed

text \<open>
  Claim C5. A call of \<open>sync\<close> with \<open>blockNum = 1\<close> returns after the intra-unit
  synchronisation: its coordinator goes from outside the call to outside the call in one
  step that leaves the object as it was. In a kernel whose units all call with
  \<open>blockNum = 1\<close>, whatever the object held at the start and however the calls are
  scheduled, the counter, the flag and the sense field never change, and each step of a
  unit is one whole call that has returned.
\<close>

theorem sync_single_participant:
  "sync_step 1 maxSpinCount (d, Outside) = (d, Outside)
   \<and> dev (run 1 maxSpinCount sched (start d)) = d
   \<and> pcs (run 1 maxSpinCount sched (start d)) i = Outside
   \<and> rets (run 1 maxSpinCount sched (start d)) i = count_list sched i"
  by (simp add: run_one)

lemma solo_poll_spin:
  assumes "poll_iteration ms (if t \<noteq> 0 then flag d = 0 else flag d \<noteq> 0) k = PollSpin k'"
  shows "(sync_step bn ms ^^ Suc n) (d, AtPoll t k) = (sync_step bn ms ^^ n) (d, AtPoll t k')"
proof -
  have "sync_step bn ms (d, AtPoll t k) = (d, AtPoll t k')" using assms by simp
  then show ?thesis by (simp add: funpow_swap1)
qed

lemma solo_poll_traps:
  assumes en: "0 \<le>s ms" and off: "if t \<noteq> 0 then flag d = 0 else flag d \<noteq> 0"
  shows "k \<le> ms \<Longrightarrow> unat ms - unat k = m \<Longrightarrow>
    (sync_step bn ms ^^ Suc m) (d, AtPoll t k) = (d, Trapped)"
proof (induction m arbitrary: k)
  case 0
  then have "k = ms" by (simp add: word_le_nat_alt word_unat_eq_iff)
  with en off show ?case by (simp add: poll_iteration_def)
next
  case (Suc m)
  then have lt: "unat k < unat ms" by simp
  then have ne: "k \<noteq> ms" by auto
  have u: "unat (k + 1) = Suc (unat k)" using lt by (rule unat_succ_below)
  have le: "k + 1 \<le> ms" using lt u by (simp add: word_le_nat_alt)
  have rec: "(sync_step bn ms ^^ Suc m) (d, AtPoll t (k + 1)) = (d, Trapped)"
    by (rule Suc.IH [OF le]) (use Suc.prems u in simp)
  have "poll_iteration ms (if t \<noteq> 0 then flag d = 0 else flag d \<noteq> 0) k = PollSpin (k + 1)"
    using en off ne by (simp add: poll_iteration_def)
  from solo_poll_spin [OF this, where bn = bn and n = "Suc m"] rec show ?case by simp
qed

lemma solo_poll_unbounded:
  assumes dis: "ms <s 0" and off: "if t \<noteq> 0 then flag d = 0 else flag d \<noteq> 0"
  shows "(sync_step bn ms ^^ n) (d, AtPoll t k) = (d, AtPoll t k)"
proof (induction n)
  case 0
  show ?case by simp
next
  case (Suc n)
  have "poll_iteration ms (if t \<noteq> 0 then flag d = 0 else flag d \<noteq> 0) k = PollSpin k"
    using dis off by (simp add: poll_iteration_def word_sle_eq word_sless_alt)
  from solo_poll_spin [OF this, where bn = bn and n = n] Suc show ?case by simp
qed

text \<open>
  Claim C2. The spin-wait faults exactly when the bound is enabled and exhausted. With
  \<open>maxSpinCount \<ge> 0\<close> and a flag that never reaches the target, the wait ends in the
  fatal fault once \<open>maxSpinCount\<close> iterations have elapsed. Whenever the wait faults, the
  bound was enabled, exactly \<open>maxSpinCount\<close> iterations had elapsed, and the flag was off
  target at every evaluation. With \<open>maxSpinCount < 0\<close> the wait never faults: it spins
  for ever if the flag never reaches the target, and it completes when the flag reaches
  the target, however late that is. The same in \<open>sync\<close> itself: a coordinator that polls
  while the flag stays off its target stands trapped after \<open>maxSpinCount + 1\<close> steps if
  the bound is enabled, and is still polling after any number of steps if it is not.
\<close>

theorem spin_wait_faults_iff_bound_exhausted:
  "(0 \<le>s maxSpinCount \<longrightarrow> (\<forall>n. cond n) \<longrightarrow>
      POLL_MAYBE_JAILBREAK (Suc (unat maxSpinCount)) maxSpinCount cond 0 0
        = Some (Faulted (unat maxSpinCount)))
   \<and> (\<forall>fuel n. POLL_MAYBE_JAILBREAK fuel maxSpinCount cond 0 0 = Some (Faulted n) \<longrightarrow>
        0 \<le>s maxSpinCount \<and> n = unat maxSpinCount \<and> (\<forall>j\<le>n. cond j))
   \<and> (maxSpinCount <s 0 \<longrightarrow>
        (\<forall>fuel n. POLL_MAYBE_JAILBREAK fuel maxSpinCount cond 0 0 \<noteq> Some (Faulted n))
        \<and> ((\<forall>n. cond n) \<longrightarrow> (\<forall>fuel. POLL_MAYBE_JAILBREAK fuel maxSpinCount cond 0 0 = None))
        \<and> (\<forall>d. \<not> cond d \<and> (\<forall>j<d. cond j) \<longrightarrow>
              POLL_MAYBE_JAILBREAK (Suc d) maxSpinCount cond 0 0 = Some (Completed d)))
   \<and> ((if tmp \<noteq> 0 then flag dv = 0 else flag dv \<noteq> 0) \<longrightarrow>
        (0 \<le>s maxSpinCount \<longrightarrow>
           (sync_step blockNum maxSpinCount ^^ Suc (unat maxSpinCount)) (dv, AtPoll tmp 0)
             = (dv, Trapped))
        \<and> (maxSpinCount <s 0 \<longrightarrow>
             (\<forall>n. (sync_step blockNum maxSpinCount ^^ n) (dv, AtPoll tmp 0)
                    = (dv, AtPoll tmp 0))))"
proof (intro conjI)
  show "(if tmp \<noteq> 0 then flag dv = 0 else flag dv \<noteq> 0) \<longrightarrow>
        (0 \<le>s maxSpinCount \<longrightarrow>
           (sync_step blockNum maxSpinCount ^^ Suc (unat maxSpinCount)) (dv, AtPoll tmp 0)
             = (dv, Trapped))
        \<and> (maxSpinCount <s 0 \<longrightarrow>
             (\<forall>n. (sync_step blockNum maxSpinCount ^^ n) (dv, AtPoll tmp 0)
                    = (dv, AtPoll tmp 0)))"
  proof (intro impI conjI allI)
    assume off: "if tmp \<noteq> 0 then flag dv = 0 else flag dv \<noteq> 0" and en: "0 \<le>s maxSpinCount"
    show "(sync_step blockNum maxSpinCount ^^ Suc (unat maxSpinCount)) (dv, AtPoll tmp 0)
        = (dv, Trapped)"
      using solo_poll_traps [OF en off, of 0 "unat maxSpinCount" blockNum] by simp
  next
    fix n
    assume off: "if tmp \<noteq> 0 then flag dv = 0 else flag dv \<noteq> 0" and dis: "maxSpinCount <s 0"
    show "(sync_step blockNum maxSpinCount ^^ n) (dv, AtPoll tmp 0) = (dv, AtPoll tmp 0)"
      by (rule solo_poll_unbounded [OF dis off])
  qed
  show "0 \<le>s maxSpinCount \<longrightarrow> (\<forall>n. cond n) \<longrightarrow>
      POLL_MAYBE_JAILBREAK (Suc (unat maxSpinCount)) maxSpinCount cond 0 0
        = Some (Faulted (unat maxSpinCount))"
    using poll_fault_from [of maxSpinCount cond 0 "unat maxSpinCount" 0] by simp
  show "\<forall>fuel n. POLL_MAYBE_JAILBREAK fuel maxSpinCount cond 0 0 = Some (Faulted n) \<longrightarrow>
        0 \<le>s maxSpinCount \<and> n = unat maxSpinCount \<and> (\<forall>j\<le>n. cond j)"
  proof (intro allI impI)
    fix fuel n
    assume f: "POLL_MAYBE_JAILBREAK fuel maxSpinCount cond 0 0 = Some (Faulted n)"
    from poll_fault_only [OF f]
    show "0 \<le>s maxSpinCount \<and> n = unat maxSpinCount \<and> (\<forall>j\<le>n. cond j)" by simp
  qed
  show "maxSpinCount <s 0 \<longrightarrow>
        (\<forall>fuel n. POLL_MAYBE_JAILBREAK fuel maxSpinCount cond 0 0 \<noteq> Some (Faulted n))
        \<and> ((\<forall>n. cond n) \<longrightarrow> (\<forall>fuel. POLL_MAYBE_JAILBREAK fuel maxSpinCount cond 0 0 = None))
        \<and> (\<forall>d. \<not> cond d \<and> (\<forall>j<d. cond j) \<longrightarrow>
              POLL_MAYBE_JAILBREAK (Suc d) maxSpinCount cond 0 0 = Some (Completed d))"
  proof (intro impI conjI allI)
    fix fuel n
    assume "maxSpinCount <s 0"
    then show "POLL_MAYBE_JAILBREAK fuel maxSpinCount cond 0 0 \<noteq> Some (Faulted n)"
      by (rule poll_disabled_no_fault)
  next
    fix fuel
    assume "maxSpinCount <s 0" "\<forall>n. cond n"
    then show "POLL_MAYBE_JAILBREAK fuel maxSpinCount cond 0 0 = None"
      by (rule poll_disabled_spins)
  next
    fix d
    assume "maxSpinCount <s 0" "\<not> cond d \<and> (\<forall>j<d. cond j)"
    then show "POLL_MAYBE_JAILBREAK (Suc d) maxSpinCount cond 0 0 = Some (Completed d)"
      using poll_disabled_completes [of maxSpinCount cond 0 d 0] by simp
  qed
qed

theorem spin_wait_faults_iff_bound_exhausted_witness:
  "POLL_MAYBE_JAILBREAK 3 2 (\<lambda>n. True) 0 0 = Some (Faulted 2)
   \<and> POLL_MAYBE_JAILBREAK 40 (- 1) (\<lambda>n. True) 0 0 = None
   \<and> POLL_MAYBE_JAILBREAK 6 (- 1) (\<lambda>n. n < 5) 0 0 = Some (Completed 5)
   \<and> (sync_step 2 2 ^^ 3) (zeroed, AtPoll 1 0) = (zeroed, Trapped)
   \<and> (sync_step 2 (- 1) ^^ 1000) (zeroed, AtPoll 1 0) = (zeroed, AtPoll 1 0)"
proof -
  have en: "0 \<le>s (2 :: 64 word)" by (simp add: word_sle_eq)
  have dis: "(- 1 :: 64 word) <s 0" by (simp add: word_sless_alt)
  have off: "if (1 :: 32 word) \<noteq> 0 then flag zeroed = 0 else flag zeroed \<noteq> 0"
    by (simp add: zeroed_def)
  have u: "Suc (unat (2 :: 64 word)) = 3" by simp
  note t2 = spin_wait_faults_iff_bound_exhausted
    [where maxSpinCount = 2 and cond = "\<lambda>n. True" and tmp = 1 and dv = zeroed and blockNum = 2]
  note tn = spin_wait_faults_iff_bound_exhausted
    [where maxSpinCount = "- 1" and cond = "\<lambda>n. True" and tmp = 1 and dv = zeroed
       and blockNum = 2]
  note tc = spin_wait_faults_iff_bound_exhausted
    [where maxSpinCount = "- 1" and cond = "\<lambda>n. n < 5"]
  have a: "POLL_MAYBE_JAILBREAK 3 2 (\<lambda>n. True) 0 0 = Some (Faulted 2)"
    using t2 [THEN conjunct1] en by simp
  have b: "POLL_MAYBE_JAILBREAK 40 (- 1) (\<lambda>n. True) 0 0 = None"
    using tn [THEN conjunct2, THEN conjunct2, THEN conjunct1] dis by simp
  have c: "POLL_MAYBE_JAILBREAK 6 (- 1) (\<lambda>n. n < 5) 0 0 = Some (Completed 5)"
    using tc [THEN conjunct2, THEN conjunct2, THEN conjunct1] dis
    by (auto simp: eval_nat_numeral)
  have d: "(sync_step 2 2 ^^ 3) (zeroed, AtPoll 1 0) = (zeroed, Trapped)"
    using t2 [THEN conjunct2, THEN conjunct2, THEN conjunct2, rule_format, OF off,
        THEN conjunct1, rule_format, OF en]
    by (simp only: u)
  have e: "(sync_step 2 (- 1) ^^ 1000) (zeroed, AtPoll 1 0) = (zeroed, AtPoll 1 0)"
    by (rule tn [THEN conjunct2, THEN conjunct2, THEN conjunct2, rule_format, OF off,
        THEN conjunct2, rule_format, OF dis])
  show ?thesis by (intro conjI) (rule a b c d e)+
qed

text \<open>
  Claim C9. A call of \<open>sync\<close> that leaves \<open>maxSpinCount\<close> out runs with the bound
  100000000: the bound is enabled, so a wait whose flag never reaches the target faults
  after 100000000 iterations; the unbounded wait is only obtained by passing a negative
  value explicitly.
\<close>

theorem sync_default_maxSpinCount:
  "sync_maxSpinCount None = 100000000
   \<and> 0 \<le>s sync_maxSpinCount None
   \<and> ((\<forall>n. cond n) \<longrightarrow>
        POLL_MAYBE_JAILBREAK (Suc 100000000) (sync_maxSpinCount None) cond 0 0
          = Some (Faulted 100000000))
   \<and> (sync_maxSpinCount arg <s 0 \<longrightarrow> (\<exists>m. arg = Some m \<and> m <s 0))"
proof (intro conjI impI)
  show d: "sync_maxSpinCount None = 100000000" by (simp add: sync_maxSpinCount_def)
  show en: "0 \<le>s sync_maxSpinCount None" by (simp add: sync_maxSpinCount_def word_sle_eq)
  have u: "unat (100000000 :: 64 word) = 100000000" by simp
  assume "\<forall>n. cond n"
  with en show "POLL_MAYBE_JAILBREAK (Suc 100000000) (sync_maxSpinCount None) cond 0 0
          = Some (Faulted 100000000)"
    using poll_fault_from [of "sync_maxSpinCount None" cond 0 100000000 0] u
    unfolding d by simp
next
  assume "sync_maxSpinCount arg <s 0"
  then show "\<exists>m. arg = Some m \<and> m <s 0"
    by (cases arg) (simp_all add: sync_maxSpinCount_def word_sless_alt)
qed

theorem sync_default_maxSpinCount_witness:
  "POLL_MAYBE_JAILBREAK (Suc 100000000) (sync_maxSpinCount None) (\<lambda>n. True) 0 0
     = Some (Faulted 100000000)
   \<and> sync_maxSpinCount (Some (- 1)) <s 0
   \<and> (\<exists>m. Some (- 1 :: 64 word) = Some m \<and> m <s 0)"
proof -
  have neg: "sync_maxSpinCount (Some (- 1)) <s 0"
    by (simp add: sync_maxSpinCount_def word_sless_alt)
  note t = sync_default_maxSpinCount [of "\<lambda>n. True" "Some (- 1)"]
  from t have "POLL_MAYBE_JAILBREAK (Suc 100000000) (sync_maxSpinCount None) (\<lambda>n. True) 0 0
     = Some (Faulted 100000000)" by blast
  moreover from t neg have "\<exists>m. Some (- 1 :: 64 word) = Some m \<and> m <s 0" by blast
  ultimately show ?thesis using neg by blast
qed

subsection \<open>Claims about rounds\<close>

lemma inv_of_run:
  assumes "1 <s blockNum" and "\<forall>i\<in>set sched. i < unat blockNum"
  shows "inv (unat blockNum) (run blockNum maxSpinCount sched (start zeroed))"
  using assms(2) by (rule inv_run [OF refl sless_one_unat [OF assms(1)]])

lemma flag_changes_at_AtSet:
  assumes "flag (dev (unit_step blockNum maxSpinCount i c)) \<noteq> flag (dev c)"
  shows "is_AtSet (pcs c i)"
proof (cases "pcs c i")
  case Outside
  with assms show ?thesis by (simp add: unit_step_def split: if_splits)
next
  case (AtInc t)
  with assms show ?thesis by (simp add: unit_step_def atomicInc_def Let_def split: if_splits)
next
  case (AtSet t)
  then show ?thesis by simp
next
  case (AtPoll t k)
  with assms show ?thesis by (simp add: unit_step_AtPoll split: poll_result.splits)
next
  case (AtStore t)
  with assms show ?thesis by (simp add: unit_step_AtStore)
next
  case Trapped
  with assms show ?thesis by (simp add: unit_step_Trapped)
qed

lemma inv_count_bound:
  assumes I: "inv N c" and N: "1 \<le> N"
  shows "unat (count (dev c)) \<le> N - 1"
proof -
  from I have "unat (count (dev c)) = (if card (arrivals N c) = N then 0 else card (arrivals N c))"
    by (simp add: inv_def inv_count_def)
  with arrivals_card_le [of N c] N show ?thesis by (auto split: if_splits)
qed

lemma inv_log_prefix:
  assumes I: "inv N c"
  shows "wrote c = take (length (wrote c)) (observed c)"
    and "length (observed c) \<le> Suc (length (wrote c))"
    and "length (wrote c) \<le> length (observed c)"
proof -
  from I have a: "\<forall>i\<in>{..<N}. is_AtSet (pcs c i) \<longrightarrow> observed c = wrote c @ [(i, Suc (flips c))]"
    and b: "(\<forall>i\<in>{..<N}. \<not> is_AtSet (pcs c i)) \<longrightarrow> observed c = wrote c"
    unfolding inv_def inv_log_def by blast+
  have "observed c = wrote c \<or> (\<exists>e. observed c = wrote c @ [e])"
    using a b by blast
  then show "wrote c = take (length (wrote c)) (observed c)"
    and "length (observed c) \<le> Suc (length (wrote c))"
    and "length (wrote c) \<le> length (observed c)"
    by auto
qed

lemma filter_round:
  "map snd xs = [1..<Suc (length xs)] \<Longrightarrow>
   filter (\<lambda>e. snd e = r) xs = (if 1 \<le> r \<and> r \<le> length xs then [xs ! (r - 1)] else [])"
proof (induction xs rule: rev_induct)
  case Nil
  then show ?case by simp
next
  case (snoc x xs)
  from snoc.prems have m: "map snd xs = [1..<Suc (length xs)]" and x: "snd x = Suc (length xs)"
    by simp_all
  note ih = snoc.IH [OF m]
  show ?case
  proof (cases "r = Suc (length xs)")
    case True
    with ih x show ?thesis by simp
  next
    case False
    with ih x show ?thesis by (auto simp: nth_append)
  qed
qed

lemma one_event_per_round:
  assumes ob: "map snd ob = [1..<Suc (length ob)]"
    and pre: "wr = take (length wr) ob" "length wr \<le> length ob"
    and r: "1 \<le> r" "r \<le> length wr"
  shows "\<exists>u. filter (\<lambda>e. snd e = r) ob = [(u, r)] \<and> filter (\<lambda>e. snd e = r) wr = [(u, r)]"
proof -
  have wm: "map snd wr = [1..<Suc (length wr)]"
  proof -
    have "map snd wr = take (length wr) (map snd ob)"
      using pre(1) by (metis take_map)
    also have "\<dots> = take (length wr) [1..<Suc (length ob)]" by (simp only: ob)
    also have "\<dots> = [1..<Suc (length wr)]" using pre(2) by (simp add: take_upt del: upt_Suc)
    finally show ?thesis .
  qed
  have f1: "filter (\<lambda>e. snd e = r) ob = [ob ! (r - 1)]"
    using filter_round [OF ob, of r] r pre(2) by simp
  have f2: "filter (\<lambda>e. snd e = r) wr = [wr ! (r - 1)]"
    using filter_round [OF wm, of r] r by simp
  have same: "wr ! (r - 1) = ob ! (r - 1)"
    using pre(1) r by (metis One_nat_def Suc_pred diff_less less_Suc_eq_le less_eq_Suc_le nth_take zero_less_one)
  have "snd (ob ! (r - 1)) = r"
  proof -
    have "r - 1 < length ob" using r pre(2) by simp
    then have "map snd ob ! (r - 1) = snd (ob ! (r - 1))" by simp
    moreover have "[1..<Suc (length ob)] ! (r - 1) = r"
      using r pre(2) by (simp add: nth_append del: upt_Suc)
    ultimately show ?thesis using ob by simp
  qed
  then have "ob ! (r - 1) = (fst (ob ! (r - 1)), r)" by (metis prod.collapse)
  with f1 f2 same show ?thesis by metis
qed

lemma round_entry:
  assumes "map snd xs = [1..<Suc (length xs)]" and "1 \<le> r" and "r \<le> length xs"
  shows "snd (xs ! (r - 1)) = r"
proof -
  have "r - 1 < length xs" using assms(2,3) by simp
  then have "map snd xs ! (r - 1) = snd (xs ! (r - 1))" by simp
  moreover have "[1..<Suc (length xs)] ! (r - 1) = r"
    using assms(2,3) by (simp add: nth_append del: upt_Suc)
  ultimately show ?thesis using assms(1) by simp
qed

lemma observed_unit_step:
  "e \<in> set (observed (unit_step blockNum maxSpinCount i c)) \<Longrightarrow>
   e \<in> set (observed c) \<or> fst e = i"
  by (auto simp: unit_step_def Let_def split: prod.splits if_splits)

lemma observed_units_run:
  "\<forall>i\<in>set sched. i < N \<Longrightarrow>
   \<forall>e\<in>set (observed (run blockNum maxSpinCount sched (start d))). fst e < N"
proof (induction sched rule: rev_induct)
  case Nil
  show ?case by (simp add: run_def start_def)
next
  case (snoc i sched)
  then have ih: "\<forall>e\<in>set (observed (run blockNum maxSpinCount sched (start d))). fst e < N"
    and i: "i < N" by simp_all
  show ?case
  proof
    fix e
    assume "e \<in> set (observed (run blockNum maxSpinCount (sched @ [i]) (start d)))"
    then have "e \<in> set (observed (run blockNum maxSpinCount sched (start d))) \<or> fst e = i"
      unfolding run_snoc by (rule observed_unit_step)
    with ih i show "fst e < N" by auto
  qed
qed

text \<open>
  Claim C3. Units \<open>0 .. blockNum - 1\<close> call \<open>sync\<close> with \<open>blockNum > 1\<close> on a zero-filled
  object, round after round, under any schedule. Then, at every moment:
  \<^item> the arrival counter is at most \<open>blockNum - 1\<close>, and \<open>atomicInc\<close> at \<open>blockNum - 1\<close>
    returns \<open>blockNum - 1\<close> and stores 0;
  \<^item> the \<open>k\<close>-th time an \<open>atomicInc\<close> returns \<open>blockNum - 1\<close> is in round \<open>k\<close>: each round
    has exactly one such coordinator, its releaser;
  \<^item> the writes to the flag are the releasers' own, in the same rounds, at most one per
    round (the log of writes is the log of releasers, but for a last releaser that has
    not written yet);
  \<^item> a unit that has returned from \<open>r\<close> calls has seen \<open>r\<close> or \<open>r + 1\<close> writes to the
    flag;
  \<^item> at most one coordinator stands between its \<open>atomicInc\<close> and its write;
  \<^item> a step that changes the flag is taken by the releaser of the round;
  \<^item> in every round whose flag has been written, so in every round some unit has
    returned from, the log holds exactly one releaser and exactly one write, by the same
    unit;
  \<^item> the counter is the number of units that have executed their \<open>atomicInc\<close> in the
    round not yet released, modulo \<open>blockNum\<close>; all of them have exactly when a
    coordinator stands between its \<open>atomicInc\<close> and its write;
  \<^item> in every round in which all units have executed their \<open>atomicInc\<close>, written or
    not, the log holds exactly one releaser, one of the units.
\<close>

theorem arrival_counter_and_unique_releaser:
  assumes "1 <s blockNum" and "\<forall>i\<in>set sched. i < unat blockNum"
    and "c = run blockNum maxSpinCount sched (start zeroed)"
  shows "count (dev c) \<le> blockNum - 1
    \<and> atomicInc (blockNum - 1) (blockNum - 1) = (blockNum - 1, 0)
    \<and> map snd (observed c) = [1..<Suc (length (observed c))]
    \<and> wrote c = take (length (wrote c)) (observed c)
    \<and> length (observed c) \<le> Suc (length (wrote c))
    \<and> (\<forall>i<unat blockNum. rets c i \<le> length (wrote c) \<and> length (wrote c) \<le> Suc (rets c i))
    \<and> (\<forall>i<unat blockNum. \<forall>j<unat blockNum.
          is_AtSet (pcs c i) \<longrightarrow> is_AtSet (pcs c j) \<longrightarrow> i = j)
    \<and> (\<forall>i<unat blockNum.
          flag (dev (unit_step blockNum maxSpinCount i c)) \<noteq> flag (dev c) \<longrightarrow>
          observed c = wrote c @ [(i, Suc (rets c i))])
    \<and> (\<forall>r. 1 \<le> r \<and> r \<le> length (wrote c) \<longrightarrow>
          (\<exists>u. filter (\<lambda>e. snd e = r) (observed c) = [(u, r)]
              \<and> filter (\<lambda>e. snd e = r) (wrote c) = [(u, r)]))
    \<and> unat (count (dev c)) = card (arrivals (unat blockNum) c) mod unat blockNum
    \<and> (card (arrivals (unat blockNum) c) = unat blockNum)
        = (\<exists>i<unat blockNum. is_AtSet (pcs c i))
    \<and> (\<forall>r. 1 \<le> r
          \<and> (\<forall>i<unat blockNum. r \<le> rets c i \<or> Suc (rets c i) = r \<and> arrived (pcs c i)) \<longrightarrow>
          (\<exists>u<unat blockNum. filter (\<lambda>e. snd e = r) (observed c) = [(u, r)]))"
proof -
  let ?N = "unat blockNum"
  have N: "2 \<le> ?N" by (rule sless_one_unat [OF assms(1)])
  have I: "inv ?N c" unfolding assms(3) by (rule inv_of_run [OF assms(1,2)])
  have m: "unat (blockNum - 1) = ?N - 1"
    using N by (simp add: unat_minus_one unat_eq_zero [symmetric] del: unat_eq_zero)
  have c1: "count (dev c) \<le> blockNum - 1"
    using inv_count_bound [OF I] N m by (simp add: word_le_nat_alt)
  have c2: "atomicInc (blockNum - 1) (blockNum - 1) = (blockNum - 1, 0)"
    by (simp add: atomicInc_def)
  have c3: "map snd (observed c) = [1..<Suc (length (observed c))]"
    using I unfolding inv_def inv_log_def by blast
  note c45 = inv_log_prefix [OF I]
  have c6: "rets c i \<le> length (wrote c) \<and> length (wrote c) \<le> Suc (rets c i)" if "i < ?N" for i
    using unit_ok_rets [OF inv_unitsD [OF I that]] by (auto simp: flips_def)
  have c7: "i = j" if "i < ?N" "j < ?N" "is_AtSet (pcs c i)" "is_AtSet (pcs c j)" for i j
    using I that unfolding inv_def inv_count_def by auto
  have c8: "observed c = wrote c @ [(i, Suc (rets c i))]"
    if "i < ?N" "flag (dev (unit_step blockNum maxSpinCount i c)) \<noteq> flag (dev c)" for i
  proof -
    have s: "is_AtSet (pcs c i)" using that(2) by (rule flag_changes_at_AtSet)
    then obtain t where "pcs c i = AtSet t" by (cases "pcs c i") auto
    with inv_unitsD [OF I that(1)] have r: "rets c i = flips c" by simp
    from I s that(1) have "observed c = wrote c @ [(i, Suc (flips c))]"
      unfolding inv_def inv_log_def by auto
    with r show ?thesis by simp
  qed
  have c9: "\<exists>u. filter (\<lambda>e. snd e = r) (observed c) = [(u, r)]
      \<and> filter (\<lambda>e. snd e = r) (wrote c) = [(u, r)]"
    if "1 \<le> r" "r \<le> length (wrote c)" for r
  proof -
    from one_event_per_round [OF c3 c45(1) c45(3) that] show ?thesis .
  qed
  from I have cnt: "unat (count (dev c))
      = (if card (arrivals ?N c) = ?N then 0 else card (arrivals ?N c))"
    and full: "(card (arrivals ?N c) = ?N) = (\<exists>i\<in>{..<?N}. is_AtSet (pcs c i))"
    by (simp_all add: inv_def inv_count_def)
  have c10: "unat (count (dev c)) = card (arrivals ?N c) mod ?N"
    using cnt arrivals_card_le [of ?N c] by (auto simp: le_less)
  have c11: "(card (arrivals ?N c) = ?N) = (\<exists>i<?N. is_AtSet (pcs c i))"
    using full by auto
  have units: "\<forall>e\<in>set (observed c). fst e < ?N"
    unfolding assms(3) by (rule observed_units_run [OF assms(2)])
  have c12: "\<exists>u<?N. filter (\<lambda>e. snd e = r) (observed c) = [(u, r)]"
    if r1: "1 \<le> r"
      and all: "\<forall>i<?N. r \<le> rets c i \<or> Suc (rets c i) = r \<and> arrived (pcs c i)" for r
  proof -
    have len: "r \<le> length (observed c)"
    proof (cases "r \<le> length (wrote c)")
      case True
      with c45(3) show ?thesis by simp
    next
      case False
      have each: "rets c i = flips c \<and> arrived (pcs c i) \<and> r = Suc (flips c)" if "i < ?N" for i
        using all c6 [OF that] that False by (auto simp: flips_def)
      then have "arrivals ?N c = {..<?N}" by (auto simp: arrivals_def)
      then have "card (arrivals ?N c) = ?N" by simp
      with c11 obtain i where i: "i < ?N" "is_AtSet (pcs c i)" by blast
      with I have "observed c = wrote c @ [(i, Suc (flips c))]"
        unfolding inv_def inv_log_def by auto
      with each [OF i(1)] show ?thesis by (simp add: flips_def)
    qed
    have pos: "r - 1 < length (observed c)" using r1 len by simp
    have f: "filter (\<lambda>e. snd e = r) (observed c) = [observed c ! (r - 1)]"
      using filter_round [OF c3, of r] r1 len by simp
    have "snd (observed c ! (r - 1)) = r" by (rule round_entry [OF c3 r1 len])
    then have e: "observed c ! (r - 1) = (fst (observed c ! (r - 1)), r)"
      by (metis prod.collapse)
    have "fst (observed c ! (r - 1)) < ?N" using units pos by simp
    with f e show ?thesis by metis
  qed
  from c1 c2 c3 c45(1,2) c6 c7 c8 c9 have first:
    "count (dev c) \<le> blockNum - 1
    \<and> atomicInc (blockNum - 1) (blockNum - 1) = (blockNum - 1, 0)
    \<and> map snd (observed c) = [1..<Suc (length (observed c))]
    \<and> wrote c = take (length (wrote c)) (observed c)
    \<and> length (observed c) \<le> Suc (length (wrote c))
    \<and> (\<forall>i<unat blockNum. rets c i \<le> length (wrote c) \<and> length (wrote c) \<le> Suc (rets c i))
    \<and> (\<forall>i<unat blockNum. \<forall>j<unat blockNum.
          is_AtSet (pcs c i) \<longrightarrow> is_AtSet (pcs c j) \<longrightarrow> i = j)
    \<and> (\<forall>i<unat blockNum.
          flag (dev (unit_step blockNum maxSpinCount i c)) \<noteq> flag (dev c) \<longrightarrow>
          observed c = wrote c @ [(i, Suc (rets c i))])
    \<and> (\<forall>r. 1 \<le> r \<and> r \<le> length (wrote c) \<longrightarrow>
          (\<exists>u. filter (\<lambda>e. snd e = r) (observed c) = [(u, r)]
              \<and> filter (\<lambda>e. snd e = r) (wrote c) = [(u, r)]))"
    by blast
  have c12': "\<forall>r. 1 \<le> r
          \<and> (\<forall>i<unat blockNum. r \<le> rets c i \<or> Suc (rets c i) = r \<and> arrived (pcs c i)) \<longrightarrow>
          (\<exists>u<unat blockNum. filter (\<lambda>e. snd e = r) (observed c) = [(u, r)])"
    using c12 by blast
  from first c10 c11 c12' show ?thesis by blast
qed

theorem arrival_counter_and_unique_releaser_witness:
  "count (dev (run 2 (- 1) [0,0,0,1,1,1,0,0,1,1,0,0,0,1,1,1,0,0,1,1] (start zeroed))) \<le> 2 - 1
   \<and> map snd (observed (run 2 (- 1) [0,0,0,1,1,1,0,0,1,1,0,0,0,1,1,1,0,0,1,1] (start zeroed)))
       = [1..<Suc (length (observed
            (run 2 (- 1) [0,0,0,1,1,1,0,0,1,1,0,0,0,1,1,1,0,0,1,1] (start zeroed))))]
   \<and> observed (run 2 (- 1) [0,0,0,1,1,1,0,0,1,1,0,0,0,1,1,1,0,0,1,1] (start zeroed))
       = [(1, 1), (1, 2)]
   \<and> wrote (run 2 (- 1) [0,0,0,1,1,1,0,0,1,1,0,0,0,1,1,1,0,0,1,1] (start zeroed))
       = [(1, 1), (1, 2)]
   \<and> rets (run 2 (- 1) [0,0,0,1,1,1,0,0,1,1,0,0,0,1,1,1,0,0,1,1] (start zeroed)) 0 = 2
   \<and> pcs (run 2 (- 1) [0,0,0,1,1] (start zeroed)) 1 = AtSet 1
   \<and> observed (run 2 (- 1) [0,0,0,1,1] (start zeroed))
       = wrote (run 2 (- 1) [0,0,0,1,1] (start zeroed))
         @ [(1, Suc (rets (run 2 (- 1) [0,0,0,1,1] (start zeroed)) 1))]
   \<and> (\<exists>u. filter (\<lambda>e. snd e = 2)
              (observed (run 2 (- 1) [0,0,0,1,1,1,0,0,1,1,0,0,0,1,1,1,0,0,1,1] (start zeroed)))
            = [(u, 2)]
          \<and> filter (\<lambda>e. snd e = 2)
              (wrote (run 2 (- 1) [0,0,0,1,1,1,0,0,1,1,0,0,0,1,1,1,0,0,1,1] (start zeroed)))
            = [(u, 2)])
   \<and> card (arrivals 3 (run 3 (- 1) [0,0,1,1] (start zeroed))) = 2
   \<and> unat (count (dev (run 3 (- 1) [0,0,1,1] (start zeroed))))
       = card (arrivals 3 (run 3 (- 1) [0,0,1,1] (start zeroed))) mod 3
   \<and> card (arrivals 3 (run 3 (- 1) [0,0,1,1,2,2] (start zeroed))) = 3
   \<and> wrote (run 3 (- 1) [0,0,1,1,2,2] (start zeroed)) = []
   \<and> (\<exists>i<3. is_AtSet (pcs (run 3 (- 1) [0,0,1,1,2,2] (start zeroed)) i))
   \<and> (\<exists>u<3. filter (\<lambda>e. snd e = 1) (observed (run 3 (- 1) [0,0,1,1,2,2] (start zeroed)))
              = [(u, 1)])"
proof -
  let ?c = "run 2 (- 1) [0,0,0,1,1,1,0,0,1,1,0,0,0,1,1,1,0,0,1,1] (start zeroed)"
  let ?b = "run 2 (- 1) [0,0,0,1,1] (start zeroed)"
  let ?m = "run 3 (- 1) [0,0,1,1] (start zeroed)"
  let ?f = "run 3 (- 1) [0,0,1,1,2,2] (start zeroed)"
  have h1: "1 <s (2 :: 32 word)" by (simp add: word_sless_alt)
  have h2: "\<forall>i\<in>set [0,0,0,1,1,1,0,0,1,1,0,0,0,1,1,1,0,0,1,1]. i < unat (2 :: 32 word)" by simp
  have h3: "\<forall>i\<in>set [0,0,0,1,1]. i < unat (2 :: 32 word)" by simp
  have k1: "1 <s (3 :: 32 word)" by (simp add: word_sless_alt)
  have k2: "\<forall>i\<in>set [0,0,1,1]. i < unat (3 :: 32 word)" by simp
  have k3: "\<forall>i\<in>set [0,0,1,1,2,2]. i < unat (3 :: 32 word)" by simp
  have u3: "unat (3 :: 32 word) = 3" by simp
  note tc = arrival_counter_and_unique_releaser [OF h1 h2 refl, where maxSpinCount = "- 1"]
  note tb = arrival_counter_and_unique_releaser [OF h1 h3 refl, where maxSpinCount = "- 1"]
  note tm = arrival_counter_and_unique_releaser
    [OF k1 k2 refl, where maxSpinCount = "- 1", unfolded u3]
  note tf = arrival_counter_and_unique_releaser
    [OF k1 k3 refl, where maxSpinCount = "- 1", unfolded u3]
  note tail_m = tm [THEN conjunct2, THEN conjunct2, THEN conjunct2, THEN conjunct2,
      THEN conjunct2, THEN conjunct2, THEN conjunct2, THEN conjunct2, THEN conjunct2]
  note tail_f = tf [THEN conjunct2, THEN conjunct2, THEN conjunct2, THEN conjunct2,
      THEN conjunct2, THEN conjunct2, THEN conjunct2, THEN conjunct2, THEN conjunct2]
  have a: "count (dev ?c) \<le> 2 - 1" using tc by (rule conjunct1)
  have b: "map snd (observed ?c) = [1..<Suc (length (observed ?c))]"
    by (rule tc [THEN conjunct2, THEN conjunct2, THEN conjunct1])
  have c: "observed ?c = [(1, 1), (1, 2)]" by code_simp
  have d: "wrote ?c = [(1, 1), (1, 2)]" by code_simp
  have e: "rets ?c 0 = 2" by code_simp
  have f: "pcs ?b 1 = AtSet 1" by code_simp
  have ch: "flag (dev (unit_step 2 (- 1) 1 ?b)) \<noteq> flag (dev ?b)" by code_simp
  have one: "1 < unat (2 :: 32 word)" by simp
  note last = tb [THEN conjunct2, THEN conjunct2, THEN conjunct2, THEN conjunct2,
      THEN conjunct2, THEN conjunct2, THEN conjunct2, THEN conjunct1]
  have g: "observed ?b = wrote ?b @ [(1, Suc (rets ?b 1))]"
    by (rule last [rule_format, OF one ch])
  have rng: "1 \<le> (2 :: nat) \<and> 2 \<le> length (wrote ?c)" by code_simp
  have h: "\<exists>u. filter (\<lambda>e. snd e = 2) (observed ?c) = [(u, 2)]
      \<and> filter (\<lambda>e. snd e = 2) (wrote ?c) = [(u, 2)]"
    by (rule tc [THEN conjunct2, THEN conjunct2, THEN conjunct2, THEN conjunct2,
        THEN conjunct2, THEN conjunct2, THEN conjunct2, THEN conjunct2, THEN conjunct1,
        rule_format, OF rng])
  have m1: "card (arrivals 3 ?m) = 2" by code_simp
  have m2: "unat (count (dev ?m)) = card (arrivals 3 ?m) mod 3"
    by (rule tail_m [THEN conjunct1])
  have f1: "card (arrivals 3 ?f) = 3" by code_simp
  have f2: "wrote ?f = []" by code_simp
  have f3: "\<exists>i<3. is_AtSet (pcs ?f i)"
    using tail_f [THEN conjunct2, THEN conjunct1] f1 by (rule iffD1)
  have p0: "Suc (rets ?f 0) = 1 \<and> arrived (pcs ?f 0)" by code_simp
  have p1: "Suc (rets ?f 1) = 1 \<and> arrived (pcs ?f 1)" by code_simp
  have p2: "Suc (rets ?f 2) = 1 \<and> arrived (pcs ?f 2)" by code_simp
  have every: "\<forall>i<3. 1 \<le> rets ?f i \<or> Suc (rets ?f i) = 1 \<and> arrived (pcs ?f i)"
  proof (intro allI impI)
    fix i :: nat
    assume "i < 3"
    then have "i = 0 \<or> i = 1 \<or> i = 2" by arith
    with p0 p1 p2 show "1 \<le> rets ?f i \<or> Suc (rets ?f i) = 1 \<and> arrived (pcs ?f i)"
      by blast
  qed
  have hyp: "1 \<le> (1 :: nat)
      \<and> (\<forall>i<3. 1 \<le> rets ?f i \<or> Suc (rets ?f i) = 1 \<and> arrived (pcs ?f i))"
    using every by simp
  have f4: "\<exists>u<3. filter (\<lambda>e. snd e = 1) (observed ?f) = [(u, 1)]"
    by (rule tail_f [THEN conjunct2, THEN conjunct2, rule_format, OF hyp])
  show ?thesis
    by (intro conjI) (rule a b c d e f g h m1 m2 f1 f2 f3 f4)+
qed

text \<open>
  The barrier itself, from the same invariant: no unit is more than one call ahead of
  another, and when unit \<open>i\<close> has returned from a call that unit \<open>j\<close> has not returned
  from, \<open>j\<close> is inside that call and past its \<open>atomicInc\<close>.
\<close>

lemma no_return_before_all_arrived:
  assumes "1 <s blockNum" and "\<forall>i\<in>set sched. i < unat blockNum"
    and "c = run blockNum maxSpinCount sched (start zeroed)"
    and "i < unat blockNum" and "j < unat blockNum"
  shows "rets c i \<le> Suc (rets c j)"
    and "rets c i = Suc (rets c j) \<Longrightarrow> is_AtPoll (pcs c j) \<or> is_AtStore (pcs c j) \<or> pcs c j = Trapped"
proof -
  have I: "inv (unat blockNum) c" unfolding assms(3) by (rule inv_of_run [OF assms(1,2)])
  note ui = inv_unitsD [OF I assms(4)]
  note uj = inv_unitsD [OF I assms(5)]
  from unit_ok_rets [OF ui] unit_ok_rets [OF uj]
  show "rets c i \<le> Suc (rets c j)" by auto
  assume "rets c i = Suc (rets c j)"
  with unit_ok_rets [OF ui] unit_ok_rets [OF uj] have "Suc (rets c j) = flips c" by auto
  with uj show "is_AtPoll (pcs c j) \<or> is_AtStore (pcs c j) \<or> pcs c j = Trapped"
    by (cases "pcs c j") auto
qed

lemma previous_flag_sense: "previous_flag (map sense [1..<Suc n]) = sense n"
  by (cases n) (simp_all add: previous_flag_def sense_def)

lemma unit_ok_target: "unit_ok R p r \<Longrightarrow> target p = Some t \<Longrightarrow> t = sense (Suc r)"
  by (cases p) auto

text \<open>
  Claim C4. In the same setting, for each unit: it has ended one spin-wait per completed
  round; the flag values that ended its successive waits alternate, 1 for the first round,
  0 for the second, and so on; the target a coordinator computes for a round is the
  complement of the value that ended its previous round (0 before the first); after the
  wait the target is that round's observed value, about to be stored into the sense field;
  and between two calls of a unit the sense field holds the value that ended its previous
  round.
\<close>

theorem flag_alternates_between_rounds:
  assumes "1 <s blockNum" and "\<forall>i\<in>set sched. i < unat blockNum"
    and "c = run blockNum maxSpinCount sched (start zeroed)"
  shows "\<forall>i<unat blockNum.
      length (seen c i) = rets c i + (if is_AtStore (pcs c i) then 1 else 0)
    \<and> (\<forall>k. Suc k < length (seen c i) \<longrightarrow> seen c i ! Suc k \<noteq> seen c i ! k)
    \<and> (\<forall>k<length (seen c i). seen c i ! k = (if even k then 1 else 0))
    \<and> (\<forall>t. target (pcs c i) = Some t \<longrightarrow>
          t = (if is_AtStore (pcs c i) then previous_flag (seen c i)
               else previous_flag (seen c i) XOR 1))
    \<and> (pcs c i = Outside \<longrightarrow> isIncFlag (dev c) = previous_flag (seen c i))"
proof (intro allI impI)
  fix i
  assume i: "i < unat blockNum"
  let ?N = "unat blockNum"
  let ?n = "rets c i + (if is_AtStore (pcs c i) then 1 else 0)"
  have I: "inv ?N c" unfolding assms(3) by (rule inv_of_run [OF assms(1,2)])
  have sn: "seen c i = map sense [1..<Suc ?n]"
    using I i unfolding inv_def inv_seen_def by auto
  have len: "length (seen c i) = ?n" by (subst sn) simp
  have nth: "seen c i ! k = sense (Suc k)" if "k < length (seen c i)" for k
  proof -
    from that len have "k < ?n" by simp
    then have "map sense [1..<Suc ?n] ! k = sense (Suc k)"
      by (simp add: nth_append del: upt_Suc)
    with sn show ?thesis by simp
  qed
  have alt: "seen c i ! Suc k \<noteq> seen c i ! k" if "Suc k < length (seen c i)" for k
    using nth [of k] nth [of "Suc k"] that sense_Suc_neq [of "Suc k"] by simp
  have par: "seen c i ! k = (if even k then 1 else 0)" if "k < length (seen c i)" for k
    using nth [OF that] by (simp add: sense_def)
  have prev: "previous_flag (seen c i) = sense ?n"
    by (subst sn) (rule previous_flag_sense)
  note u = inv_unitsD [OF I i]
  have tg: "t = (if is_AtStore (pcs c i) then previous_flag (seen c i)
               else previous_flag (seen c i) XOR 1)" if "target (pcs c i) = Some t" for t
    using unit_ok_target [OF u that] unfolding prev by (simp add: sense_Suc)
  have out: "isIncFlag (dev c) = previous_flag (seen c i)" if "pcs c i = Outside"
  proof -
    from u that have r: "rets c i = flips c" by simp
    with I i have "isIncFlag (dev c) = sense (flips c)"
      by (auto simp: inv_def inv_sense_def)
    with r that show ?thesis unfolding prev by simp
  qed
  from len alt par tg out
  show "length (seen c i) = rets c i + (if is_AtStore (pcs c i) then 1 else 0)
    \<and> (\<forall>k. Suc k < length (seen c i) \<longrightarrow> seen c i ! Suc k \<noteq> seen c i ! k)
    \<and> (\<forall>k<length (seen c i). seen c i ! k = (if even k then 1 else 0))
    \<and> (\<forall>t. target (pcs c i) = Some t \<longrightarrow>
          t = (if is_AtStore (pcs c i) then previous_flag (seen c i)
               else previous_flag (seen c i) XOR 1))
    \<and> (pcs c i = Outside \<longrightarrow> isIncFlag (dev c) = previous_flag (seen c i))"
    by blast
qed

theorem flag_alternates_between_rounds_witness:
  "seen (run 2 (- 1) [0,0,0,1,1,1,0,0,1,1,0,0,0,1,1,1,0,0,1,1] (start zeroed)) 0 = [1, 0]
   \<and> seen (run 2 (- 1) [0,0,0,1,1,1,0,0,1,1,0,0,0,1,1,1,0,0,1,1] (start zeroed)) 0 ! Suc 0
       \<noteq> seen (run 2 (- 1) [0,0,0,1,1,1,0,0,1,1,0,0,0,1,1,1,0,0,1,1] (start zeroed)) 0 ! 0
   \<and> isIncFlag (dev (run 2 (- 1) [0,0,0,1,1,1,0,0,1,1,0,0,0,1,1,1,0,0,1,1] (start zeroed)))
       = previous_flag
           (seen (run 2 (- 1) [0,0,0,1,1,1,0,0,1,1,0,0,0,1,1,1,0,0,1,1] (start zeroed)) 0)
   \<and> target (pcs (run 2 (- 1) [0,0,0,1,1,1,0,0,1,1,0] (start zeroed)) 0) = Some 0
   \<and> (0 :: 32 word) = previous_flag (seen (run 2 (- 1) [0,0,0,1,1,1,0,0,1,1,0] (start zeroed)) 0) XOR 1"
proof -
  let ?c = "run 2 (- 1) [0,0,0,1,1,1,0,0,1,1,0,0,0,1,1,1,0,0,1,1] (start zeroed)"
  let ?b = "run 2 (- 1) [0,0,0,1,1,1,0,0,1,1,0] (start zeroed)"
  have h1: "1 <s (2 :: 32 word)" by (simp add: word_sless_alt)
  have h2: "\<forall>i\<in>set [0,0,0,1,1,1,0,0,1,1,0,0,0,1,1,1,0,0,1,1]. i < unat (2 :: 32 word)" by simp
  have h3: "\<forall>i\<in>set [0,0,0,1,1,1,0,0,1,1,0]. i < unat (2 :: 32 word)" by simp
  have zero: "0 < unat (2 :: 32 word)" by simp
  note tc = flag_alternates_between_rounds [OF h1 h2 refl, where maxSpinCount = "- 1"]
  note tb = flag_alternates_between_rounds [OF h1 h3 refl, where maxSpinCount = "- 1"]
  have a: "seen ?c 0 = [1, 0]" by code_simp
  have len: "Suc 0 < length (seen ?c 0)" by code_simp
  note body = tc [rule_format, OF zero]
  have b: "seen ?c 0 ! Suc 0 \<noteq> seen ?c 0 ! 0"
    by (rule body [THEN conjunct2, THEN conjunct1, rule_format, OF len])
  have out: "pcs ?c 0 = Outside" by code_simp
  have c: "isIncFlag (dev ?c) = previous_flag (seen ?c 0)"
    by (rule body [THEN conjunct2, THEN conjunct2, THEN conjunct2, THEN conjunct2,
        rule_format, OF out])
  have d: "target (pcs ?b 0) = Some 0" by code_simp
  have ns: "\<not> is_AtStore (pcs ?b 0)" by code_simp
  note tg = tb [rule_format, OF zero, THEN conjunct2, THEN conjunct2, THEN conjunct2,
      THEN conjunct1, rule_format, OF d]
  have e: "(0 :: 32 word) = previous_flag (seen ?b 0) XOR 1"
    using tg by (simp only: ns if_False)
  show ?thesis
    by (intro conjI) (rule a b c d e)+
qed

subsection \<open>The barrier as a whole\<close>

text \<open>
  What one step of a unit does to the measure of progress: it moves the unit forward,
  unless the unit is trapped by the step or is spinning with the bound disabled while the
  round is not complete, and then the step changes nothing at all. The spin count never
  exceeds the bound.
\<close>

lemma unit_step_others:
  assumes "j \<noteq> i"
  shows "pcs (unit_step blockNum maxSpinCount i c) j = pcs c j"
    and "rets (unit_step blockNum maxSpinCount i c) j = rets c j"
  using assms by (simp_all add: unit_step_def Let_def split: prod.split)

lemma position_others:
  assumes "j \<noteq> i"
  shows "position ms (unit_step blockNum maxSpinCount i c) j = position ms c j"
  using assms by (simp add: position_def unit_step_others)

lemma spin_count_room:
  assumes "inv_spin N maxSpinCount c" and "i < N" and "pcs c i = AtPoll t k"
  shows "unat k \<le> spin_room maxSpinCount"
    and "\<not> 0 \<le>s maxSpinCount \<Longrightarrow> k = 0"
    and "0 \<le>s maxSpinCount \<Longrightarrow> k \<le> maxSpinCount"
  using assms by (auto simp: inv_spin_def spin_room_def word_le_nat_alt split: if_splits dest!: bspec [where x = i])

lemma step_effect:
  assumes N: "N = unat blockNum" "2 \<le> N" and I: "inv N c"
    and S: "inv_spin N maxSpinCount c" and i: "i < N"
  shows "pcs (unit_step blockNum maxSpinCount i c) i = Trapped
         \<or> position maxSpinCount c i < position maxSpinCount (unit_step blockNum maxSpinCount i c) i
         \<or> unit_step blockNum maxSpinCount i c = c \<and> is_AtPoll (pcs c i) \<and> rets c i = flips c"
    and "case pcs (unit_step blockNum maxSpinCount i c) i of
           AtPoll t k \<Rightarrow> (if 0 \<le>s maxSpinCount then k \<le> maxSpinCount else k = 0)
         | _ \<Rightarrow> True"
    and "rets c i \<le> rets (unit_step blockNum maxSpinCount i c) i"
proof -
  let ?c' = "unit_step blockNum maxSpinCount i c"
  have b1: "blockNum \<noteq> 1" using N by auto
  have all: "(pcs ?c' i = Trapped
         \<or> position maxSpinCount c i < position maxSpinCount ?c' i
         \<or> ?c' = c \<and> is_AtPoll (pcs c i) \<and> rets c i = flips c)
    \<and> (case pcs ?c' i of
           AtPoll t k \<Rightarrow> (if 0 \<le>s maxSpinCount then k \<le> maxSpinCount else k = 0)
         | _ \<Rightarrow> True)
    \<and> rets c i \<le> rets ?c' i"
  proof (cases "pcs c i")
    case Outside
    with b1 show ?thesis by (simp add: unit_step_Outside position_def)
  next
    case (AtInc t)
    then show ?thesis
      by (simp add: unit_step_def position_def Let_def atomicInc_def split: prod.split)
  next
    case (AtSet t)
    then show ?thesis by (simp add: unit_step_AtSet position_def)
  next
    case (AtPoll t k)
    let ?cond = "if t \<noteq> 0 then flag (dev c) = 0 else flag (dev c) \<noteq> 0"
    note cond = inv_poll_cond(1) [OF I i AtPoll]
    note room = spin_count_room [OF S i AtPoll]
    show ?thesis
    proof (cases "poll_iteration maxSpinCount ?cond k")
      case PollExit
      with AtPoll room(1) show ?thesis
        by (simp add: unit_step_AtPoll position_def)
    next
      case PollFault
      with AtPoll show ?thesis by (simp add: unit_step_AtPoll)
    next
      case (PollSpin k')
      then have c: "?cond" by (auto simp: poll_iteration_def split: if_splits)
      with cond have w: "rets c i = flips c" by simp
      show ?thesis
      proof (cases "0 \<le>s maxSpinCount")
        case True
        with PollSpin c have k': "k' = k + 1" and ne: "k \<noteq> maxSpinCount"
          by (auto simp: poll_iteration_def split: if_splits)
        from room(3) [OF True] ne have lt: "unat k < unat maxSpinCount"
          by (metis le_neq_implies_less word_le_nat_alt word_unat_eq_iff)
        note suc = unat_succ_below [OF lt]
        from lt suc have "k + 1 \<le> maxSpinCount" by (simp add: word_le_nat_alt)
        with PollSpin AtPoll True k' suc show ?thesis
          by (simp add: unit_step_AtPoll position_def)
      next
        case False
        with PollSpin c have k': "k' = k"
          by (auto simp: poll_iteration_def split: if_splits)
        have "c\<lparr>pcs := (pcs c)(i := AtPoll t k)\<rparr> = c" using AtPoll by (simp add: fun_upd_idem)
        with PollSpin AtPoll False k' room(2) w show ?thesis
          by (simp add: unit_step_AtPoll)
      qed
    qed
  next
    case (AtStore t)
    then show ?thesis by (simp add: unit_step_AtStore position_def)
  next
    case Trapped
    then show ?thesis by (simp add: unit_step_Trapped)
  qed
  from all show "pcs ?c' i = Trapped
         \<or> position maxSpinCount c i < position maxSpinCount ?c' i
         \<or> ?c' = c \<and> is_AtPoll (pcs c i) \<and> rets c i = flips c" by blast
  from all show "case pcs ?c' i of
           AtPoll t k \<Rightarrow> (if 0 \<le>s maxSpinCount then k \<le> maxSpinCount else k = 0)
         | _ \<Rightarrow> True" by blast
  from all show "rets c i \<le> rets ?c' i" by blast
qed

lemma inv_spin_step:
  assumes N: "N = unat blockNum" "2 \<le> N" and I: "inv N c"
    and S: "inv_spin N maxSpinCount c" and i: "i < N"
  shows "inv_spin N maxSpinCount (unit_step blockNum maxSpinCount i c)"
  unfolding inv_spin_def
proof
  fix j assume "j \<in> {..<N}"
  show "case pcs (unit_step blockNum maxSpinCount i c) j of
           AtPoll t k \<Rightarrow> (if 0 \<le>s maxSpinCount then k \<le> maxSpinCount else k = 0)
         | _ \<Rightarrow> True"
  proof (cases "j = i")
    case True
    then show ?thesis using step_effect(2) [OF N I S i] by simp
  next
    case False
    with S \<open>j \<in> {..<N}\<close> show ?thesis by (simp add: unit_step_others inv_spin_def)
  qed
qed

lemma rets_mono_step:
  "rets c j \<le> rets (unit_step blockNum maxSpinCount i c) j"
  by (simp add: unit_step_def Let_def split: prod.split)

lemma trapped_step:
  "pcs c j = Trapped \<Longrightarrow> pcs (unit_step blockNum maxSpinCount i c) j = Trapped"
  by (cases "j = i") (simp_all add: unit_step_Trapped unit_step_others)

lemma no_fault_when_disabled_step:
  assumes "\<not> 0 \<le>s maxSpinCount" and "pcs c j \<noteq> Trapped"
  shows "pcs (unit_step blockNum maxSpinCount i c) j \<noteq> Trapped"
proof (cases "j = i")
  case True
  with assms show ?thesis
    by (cases "pcs c i")
      (auto simp: unit_step_def Let_def atomicInc_def poll_iteration_def split: prod.split if_splits)
next
  case False
  with assms show ?thesis by (simp add: unit_step_others)
qed


text \<open>Schedules: the invariants hold along them, and a trapped unit stays trapped.\<close>

lemma run_Nil: "run blockNum maxSpinCount [] c = c"
  by (simp add: run_def)

lemma run_Cons:
  "run blockNum maxSpinCount (i # sched) c =
   run blockNum maxSpinCount sched (unit_step blockNum maxSpinCount i c)"
  by (simp add: run_def)

lemma run_append:
  "run blockNum maxSpinCount (s1 @ s2) c =
   run blockNum maxSpinCount s2 (run blockNum maxSpinCount s1 c)"
  by (simp add: run_def)

lemma invs_run:
  assumes N: "N = unat blockNum" "2 \<le> N"
    and I: "inv N c" and S: "inv_spin N maxSpinCount c"
  shows "\<forall>i\<in>set sched. i < N \<Longrightarrow>
    inv N (run blockNum maxSpinCount sched c) \<and> inv_spin N maxSpinCount (run blockNum maxSpinCount sched c)"
proof (induction sched rule: rev_induct)
  case Nil
  show ?case using I S by (simp add: run_Nil)
next
  case (snoc i sched)
  then have "inv N (run blockNum maxSpinCount sched c)"
    and "inv_spin N maxSpinCount (run blockNum maxSpinCount sched c)" and "i < N" by simp_all
  then show ?case unfolding run_snoc
    by (simp add: inv_unit_step [OF N] inv_spin_step [OF N])
qed

lemma inv_spin_start: "inv_spin N maxSpinCount (start d)"
  by (simp add: inv_spin_def start_def)

lemma rets_mono_run: "rets c j \<le> rets (run blockNum maxSpinCount sched c) j"
proof (induction sched rule: rev_induct)
  case Nil
  show ?case by (simp add: run_Nil)
next
  case (snoc i sched)
  then show ?case unfolding run_snoc
    using rets_mono_step [of "run blockNum maxSpinCount sched c" j blockNum maxSpinCount i]
    by simp
qed

lemma trapped_run:
  "pcs c j = Trapped \<Longrightarrow> pcs (run blockNum maxSpinCount sched c) j = Trapped"
  by (induction sched rule: rev_induct) (simp_all add: run_Nil run_snoc trapped_step)

lemma no_fault_when_disabled_run:
  assumes "\<not> 0 \<le>s maxSpinCount" and "pcs c j \<noteq> Trapped"
  shows "pcs (run blockNum maxSpinCount sched c) j \<noteq> Trapped"
  using assms(2)
  by (induction sched rule: rev_induct)
    (simp_all add: run_Nil run_snoc no_fault_when_disabled_step [OF assms(1)])

text \<open>
  A pass in which every unit takes a step moves some unit forward, unless a unit is
  trapped: if no step of the pass changed anything, every unit would be spinning in the
  round that is not complete, so all of them would have arrived, and then the last to
  arrive is about to write the flag and is not spinning.
\<close>

lemma progress_split:
  assumes "i < N"
  shows "progress N maxSpinCount c =
    position maxSpinCount c i + (\<Sum>j\<in>{..<N} - {i}. position maxSpinCount c j)"
  using assms by (simp add: progress_def sum.remove)

lemma progress_step:
  assumes N: "N = unat blockNum" "2 \<le> N" and I: "inv N c"
    and S: "inv_spin N maxSpinCount c" and i: "i < N"
    and nt: "pcs (unit_step blockNum maxSpinCount i c) i \<noteq> Trapped"
  shows "progress N maxSpinCount c < progress N maxSpinCount (unit_step blockNum maxSpinCount i c)
         \<or> unit_step blockNum maxSpinCount i c = c \<and> is_AtPoll (pcs c i) \<and> rets c i = flips c"
proof -
  let ?c' = "unit_step blockNum maxSpinCount i c"
  have rest: "(\<Sum>j\<in>{..<N} - {i}. position maxSpinCount ?c' j) =
              (\<Sum>j\<in>{..<N} - {i}. position maxSpinCount c j)"
    by (rule sum.cong) (simp_all add: position_others)
  from step_effect(1) [OF N I S i] nt
  have "position maxSpinCount c i < position maxSpinCount ?c' i
        \<or> ?c' = c \<and> is_AtPoll (pcs c i) \<and> rets c i = flips c" by simp
  then show ?thesis
  proof
    assume "position maxSpinCount c i < position maxSpinCount ?c' i"
    then have "progress N maxSpinCount c < progress N maxSpinCount ?c'"
      unfolding progress_split [OF i] rest by simp
    then show ?thesis ..
  next
    assume "?c' = c \<and> is_AtPoll (pcs c i) \<and> rets c i = flips c"
    then show ?thesis ..
  qed
qed

lemma progress_run:
  assumes N: "N = unat blockNum" "2 \<le> N"
  shows "inv N c \<Longrightarrow> inv_spin N maxSpinCount c \<Longrightarrow> \<forall>i\<in>set p. i < N \<Longrightarrow>
    \<forall>j<N. pcs (run blockNum maxSpinCount p c) j \<noteq> Trapped \<Longrightarrow>
    progress N maxSpinCount c < progress N maxSpinCount (run blockNum maxSpinCount p c)
    \<or> run blockNum maxSpinCount p c = c
       \<and> (\<forall>i\<in>set p. is_AtPoll (pcs c i) \<and> rets c i = flips c)"
proof (induction p arbitrary: c)
  case Nil
  show ?case by (simp add: run_Nil)
next
  case (Cons i p)
  let ?c1 = "unit_step blockNum maxSpinCount i c"
  from Cons.prems(3) have i: "i < N" and p: "\<forall>i\<in>set p. i < N" by simp_all
  note I1 = inv_unit_step [OF N Cons.prems(1) i, of maxSpinCount]
  note S1 = inv_spin_step [OF N Cons.prems(1,2) i]
  from Cons.prems(4) have nt: "\<forall>j<N. pcs (run blockNum maxSpinCount p ?c1) j \<noteq> Trapped"
    by (simp add: run_Cons)
  have "pcs ?c1 i \<noteq> Trapped"
  proof
    assume "pcs ?c1 i = Trapped"
    then have "pcs (run blockNum maxSpinCount p ?c1) i = Trapped" by (rule trapped_run)
    with nt i show False by simp
  qed
  note first = progress_step [OF N Cons.prems(1,2) i this]
  note rest = Cons.IH [OF I1 S1 p nt]
  from first rest show ?case unfolding run_Cons by auto
qed

lemma pass_progress:
  assumes N: "N = unat blockNum" "2 \<le> N" and I: "inv N c"
    and S: "inv_spin N maxSpinCount c" and p: "set p = {..<N}"
    and nt: "\<forall>j<N. pcs (run blockNum maxSpinCount p c) j \<noteq> Trapped"
  shows "progress N maxSpinCount c < progress N maxSpinCount (run blockNum maxSpinCount p c)"
proof -
  from p have v: "\<forall>i\<in>set p. i < N" by simp
  from progress_run [OF N I S v nt] show ?thesis
  proof
    assume "run blockNum maxSpinCount p c = c
       \<and> (\<forall>i\<in>set p. is_AtPoll (pcs c i) \<and> rets c i = flips c)"
    then have all: "\<forall>i<N. is_AtPoll (pcs c i) \<and> rets c i = flips c" using p by simp
    then have "arrivals N c = {..<N}" by (auto simp: arrivals_def arrived_def)
    then have "card (arrivals N c) = N" by simp
    with I have "\<exists>i\<in>{..<N}. is_AtSet (pcs c i)" by (simp add: inv_def inv_count_def)
    then obtain i where "i < N" "is_AtSet (pcs c i)" by auto
    with all have False by (cases "pcs c i") auto
    then show ?thesis ..
  qed
qed

lemma passes_progress:
  assumes N: "N = unat blockNum" "2 \<le> N"
  shows "inv N c \<Longrightarrow> inv_spin N maxSpinCount c \<Longrightarrow> fair_passes N ps \<Longrightarrow>
    \<forall>j<N. pcs (run blockNum maxSpinCount (concat ps) c) j \<noteq> Trapped \<Longrightarrow>
    progress N maxSpinCount c + length ps
      \<le> progress N maxSpinCount (run blockNum maxSpinCount (concat ps) c)"
proof (induction ps arbitrary: c)
  case Nil
  show ?case by (simp add: run_Nil)
next
  case (Cons p ps)
  let ?c1 = "run blockNum maxSpinCount p c"
  from Cons.prems(3) have p: "set p = {..<N}" and ps: "fair_passes N ps"
    by (simp_all add: fair_passes_def)
  from p have v: "\<forall>i\<in>set p. i < N" by simp
  note IS = invs_run [OF N Cons.prems(1,2) v]
  from Cons.prems(4) have nt: "\<forall>j<N. pcs (run blockNum maxSpinCount (concat ps) ?c1) j \<noteq> Trapped"
    by (simp add: run_append)
  have nt1: "\<forall>j<N. pcs ?c1 j \<noteq> Trapped"
  proof (intro allI impI notI)
    fix j assume "j < N" "pcs ?c1 j = Trapped"
    from trapped_run [OF this(2), of blockNum maxSpinCount "concat ps"] nt \<open>j < N\<close>
    show False by simp
  qed
  note one = pass_progress [OF N Cons.prems(1,2) p nt1]
  note more = Cons.IH [OF IS [THEN conjunct1] IS [THEN conjunct2] ps nt]
  from one more show ?case by (simp add: run_append)
qed

lemma inv_barrier:
  assumes I: "inv N c" and "i < N" and "j < N"
  shows "rets c i \<le> Suc (rets c j)"
    and "rets c i = Suc (rets c j) \<Longrightarrow>
           is_AtPoll (pcs c j) \<or> is_AtStore (pcs c j) \<or> pcs c j = Trapped"
proof -
  note ui = inv_unitsD [OF I assms(2)]
  note uj = inv_unitsD [OF I assms(3)]
  from unit_ok_rets [OF ui] unit_ok_rets [OF uj]
  show "rets c i \<le> Suc (rets c j)" by auto
  assume "rets c i = Suc (rets c j)"
  with unit_ok_rets [OF ui] unit_ok_rets [OF uj] have "Suc (rets c j) = flips c" by auto
  with uj show "is_AtPoll (pcs c j) \<or> is_AtStore (pcs c j) \<or> pcs c j = Trapped"
    by (cases "pcs c j") auto
qed

lemma stage_bound:
  assumes "inv_spin N maxSpinCount c" and "i < N"
  shows "stage maxSpinCount (pcs c i) \<le> 4 + spin_room maxSpinCount"
proof (cases "pcs c i")
  case (AtPoll t k)
  from spin_count_room(1) [OF assms AtPoll] AtPoll show ?thesis by simp
qed simp_all

lemma progress_bound:
  assumes N: "1 \<le> N" and I: "inv N c" and S: "inv_spin N maxSpinCount c"
    and i: "i < N" and r: "rets c i < r"
  shows "progress N maxSpinCount c < enough_passes N maxSpinCount r"
proof -
  define W where "W = 5 + spin_room maxSpinCount"
  have each: "position maxSpinCount c j \<le> r * W + (W - 1)" if j: "j < N" for j
  proof -
    from inv_barrier(1) [OF I j i] r have "rets c j \<le> r" by simp
    then have "rets c j * W \<le> r * W" by (rule mult_le_mono1)
    moreover have "stage maxSpinCount (pcs c j) \<le> W - 1"
      using stage_bound [OF S j] by (simp add: W_def)
    ultimately show ?thesis unfolding position_def W_def [symmetric] by (rule add_mono)
  qed
  have "progress N maxSpinCount c \<le> of_nat (card {..<N}) * (r * W + (W - 1))"
    unfolding progress_def by (rule sum_bounded_above) (rule each, simp)
  also have "\<dots> = N * (r * W + (W - 1))" by simp
  also have "\<dots> < N * (Suc r * W)"
  proof -
    have "r * W + (W - 1) < Suc r * W" by (simp add: W_def)
    with N show ?thesis by simp
  qed
  finally show ?thesis unfolding enough_passes_def W_def by (simp only: mult.assoc)
qed

lemma fair_schedule_returns_or_traps:
  assumes N: "N = unat blockNum" "2 \<le> N"
    and ps: "fair_passes N ps" and len: "enough_passes N maxSpinCount r \<le> length ps"
    and c: "c = run blockNum maxSpinCount (concat ps) (start zeroed)"
  shows "(\<forall>i<N. r \<le> rets c i) \<or> (\<exists>i<N. pcs c i = Trapped)"
proof (rule ccontr)
  assume "\<not> ?thesis"
  then obtain i where i: "i < N" "rets c i < r" and nt: "\<forall>j<N. pcs c j \<noteq> Trapped"
    by (auto simp: not_le)
  have I0: "inv N (start zeroed)" using N by (simp add: inv_start)
  note S0 = inv_spin_start [of N maxSpinCount zeroed]
  have v: "\<forall>i\<in>set (concat ps). i < N" using ps by (auto simp: fair_passes_def)
  note IS = invs_run [OF N I0 S0 v, folded c]
  from passes_progress [OF N I0 S0 ps] nt
  have "length ps \<le> progress N maxSpinCount c" unfolding c by simp
  moreover have "progress N maxSpinCount c < enough_passes N maxSpinCount r"
    using progress_bound [OF _ IS [THEN conjunct1] IS [THEN conjunct2] i] N by simp
  ultimately show False using len by simp
qed


text \<open>Stores: memory is the replay of the log, and the log only grows.\<close>

lemma exec_Nil: "exec blockNum maxSpinCount [] k = k"
  by (simp add: exec_def)

lemma exec_snoc:
  "exec blockNum maxSpinCount (acts @ [a]) k =
   act blockNum maxSpinCount a (exec blockNum maxSpinCount acts k)"
  by (simp add: exec_def)

lemma exec_Cons:
  "exec blockNum maxSpinCount (a # acts) k =
   exec blockNum maxSpinCount acts (act blockNum maxSpinCount a k)"
  by (simp add: exec_def)

lemma syncs_snoc:
  "syncs (acts @ [a]) = syncs acts @ (case a of Sync i \<Rightarrow> [i] | Store i x v \<Rightarrow> [])"
  by (induction acts rule: syncs.induct) (simp_all split: action.split)

lemma syncs_units: "\<forall>a\<in>set acts. unit_of a < N \<Longrightarrow> \<forall>i\<in>set (syncs acts). i < N"
  by (induction acts rule: syncs.induct) simp_all

lemma conf_exec:
  "conf (exec blockNum maxSpinCount acts k) = run blockNum maxSpinCount (syncs acts) (conf k)"
proof (induction acts rule: rev_induct)
  case Nil
  show ?case by (simp add: exec_Nil run_Nil)
next
  case (snoc a acts)
  then show ?case
    by (cases a) (simp_all add: exec_snoc syncs_snoc run_append run_Cons run_Nil)
qed

lemma replay_snoc: "replay g (es @ [e]) = (replay g es)(address e := stored e)"
  by (simp add: replay_def)

lemma gmem_act:
  assumes "gmem k = replay g (store_log k)"
  shows "gmem (act blockNum maxSpinCount a k) = replay g (store_log (act blockNum maxSpinCount a k))"
  using assms by (cases a) (simp_all add: replay_snoc)

lemma gmem_exec:
  "gmem (exec blockNum maxSpinCount acts (boot d g)) =
   replay g (store_log (exec blockNum maxSpinCount acts (boot d g)))"
proof (induction acts rule: rev_induct)
  case Nil
  show ?case by (simp add: exec_Nil boot_def replay_def)
next
  case (snoc a acts)
  then show ?case unfolding exec_snoc by (rule gmem_act)
qed

lemma store_tags_act:
  assumes "\<forall>e\<in>set (store_log k). 1 \<le> before_call e \<and> before_call e \<le> Suc (rets (conf k) (by_unit e))"
  shows "\<forall>e\<in>set (store_log (act blockNum maxSpinCount a k)).
           1 \<le> before_call e
           \<and> before_call e \<le> Suc (rets (conf (act blockNum maxSpinCount a k)) (by_unit e))"
proof (cases a)
  case (Sync i)
  show ?thesis
  proof
    fix e assume "e \<in> set (store_log (act blockNum maxSpinCount a k))"
    then have e: "e \<in> set (store_log k)" using Sync by simp
    note rets_mono_step [of "conf k" "by_unit e" blockNum maxSpinCount i]
    with assms e Sync
    show "1 \<le> before_call e
           \<and> before_call e \<le> Suc (rets (conf (act blockNum maxSpinCount a k)) (by_unit e))"
      by fastforce
  qed
next
  case (Store i x v)
  with assms show ?thesis by auto
qed

lemma store_tags_exec:
  "\<forall>e\<in>set (store_log (exec blockNum maxSpinCount acts (boot d g))).
     1 \<le> before_call e
     \<and> before_call e \<le> Suc (rets (conf (exec blockNum maxSpinCount acts (boot d g))) (by_unit e))"
proof (induction acts rule: rev_induct)
  case Nil
  show ?case by (simp add: exec_Nil boot_def)
next
  case (snoc a acts)
  then show ?case unfolding exec_snoc by (rule store_tags_act)
qed

lemma inv_run_from:
  assumes N: "N = unat blockNum" "2 \<le> N" and I: "inv N c"
  shows "\<forall>i\<in>set sched. i < N \<Longrightarrow> inv N (run blockNum maxSpinCount sched c)"
proof (induction sched rule: rev_induct)
  case Nil
  show ?case using I by (simp add: run_Nil)
next
  case (snoc i sched)
  then have "inv N (run blockNum maxSpinCount sched c)" and "i < N" by simp_all
  then show ?case unfolding run_snoc by (rule inv_unit_step [OF N])
qed

lemma later_stores:
  assumes N: "N = unat blockNum" "2 \<le> N" and I: "inv N (conf k)" and j: "j < N"
  shows "\<forall>a\<in>set later. unit_of a < N \<Longrightarrow>
    \<exists>new. store_log (exec blockNum maxSpinCount later k) = store_log k @ new
          \<and> (\<forall>e\<in>set new. rets (conf k) j < before_call e)"
proof (induction later rule: rev_induct)
  case Nil
  show ?case by (simp add: exec_Nil)
next
  case (snoc a later)
  let ?k1 = "exec blockNum maxSpinCount later k"
  from snoc.prems have v: "\<forall>a\<in>set later. unit_of a < N" and a: "unit_of a < N" by simp_all
  from snoc.IH [OF v] obtain new where
    new: "store_log ?k1 = store_log k @ new" "\<forall>e\<in>set new. rets (conf k) j < before_call e"
    by blast
  have I1: "inv N (conf ?k1)"
    unfolding conf_exec by (rule inv_run_from [OF N I syncs_units [OF v]])
  have mono: "rets (conf k) j \<le> rets (conf ?k1) j"
    unfolding conf_exec by (rule rets_mono_run)
  show ?case
  proof (cases a)
    case (Sync i)
    with new show ?thesis by (auto simp: exec_snoc)
  next
    case (Store u x v)
    show ?thesis
    proof (cases "pcs (conf ?k1) u = Outside")
      case True
      from a Store have u: "u < N" by simp
      from inv_barrier [OF I1 j u] True have "rets (conf ?k1) j \<le> rets (conf ?k1) u"
        by (cases "rets (conf ?k1) j = Suc (rets (conf ?k1) u)") auto
      with mono have "rets (conf k) j < Suc (rets (conf ?k1) u)" by simp
      with new True Store
      have "store_log (exec blockNum maxSpinCount (later @ [a]) k)
              = store_log k @ (new @ [StoreEvent u (Suc (rets (conf ?k1) u)) x v])
            \<and> (\<forall>e\<in>set (new @ [StoreEvent u (Suc (rets (conf ?k1) u)) x v]).
                  rets (conf k) j < before_call e)"
        by (simp add: exec_snoc)
      then show ?thesis by blast
    next
      case False
      with new Store show ?thesis by (auto simp: exec_snoc)
    qed
  qed
qed


lemma trap_step_iff:
  assumes I: "inv N c" and i: "i < N" and nt: "pcs c i \<noteq> Trapped"
  shows "(pcs (unit_step blockNum maxSpinCount i c) i = Trapped) =
         (0 \<le>s maxSpinCount \<and> (\<exists>t. pcs c i = AtPoll t maxSpinCount) \<and> rets c i = flips c)"
proof (cases "pcs c i")
  case (AtPoll t s)
  note cond = inv_poll_cond(1) [OF I i AtPoll]
  show ?thesis
    using AtPoll cond
    by (auto simp: unit_step_AtPoll poll_iteration_def split: if_splits)
next
  case (AtInc t)
  then show ?thesis
    by (simp add: unit_step_def Let_def atomicInc_def split: prod.split)
qed (use nt in \<open>simp_all add: unit_step_def\<close>)

lemma not_sle_zero: "(\<not> 0 \<le>s (m :: 64 word)) = (m <s 0)"
  by (simp add: word_sless_alt word_sle_eq not_le)


text \<open>
  Claim C1 says that in a round of \<open>N > 1\<close> units all \<open>N\<close> calls return. That fails when
  the bound of the spin-wait runs out before the last unit arrives; the bound counts
  iterations, not arrivals. With two units, each calling \<open>sync(2, 0)\<close> once, the unit
  that arrives first is trapped at its first look at the flag and never returns, while
  the other, coming later, completes the round and returns; a trapped unit takes no
  further step.
\<close>

theorem all_calls_return_counterexample:
  "pcs (run 2 0 [0, 0, 0, 1, 1, 1, 1, 1] (start zeroed)) 0 = Trapped
   \<and> rets (run 2 0 [0, 0, 0, 1, 1, 1, 1, 1] (start zeroed)) 0 = 0
   \<and> pcs (run 2 0 [0, 0, 0, 1, 1, 1, 1, 1] (start zeroed)) 1 = Outside
   \<and> rets (run 2 0 [0, 0, 0, 1, 1, 1, 1, 1] (start zeroed)) 1 = 1
   \<and> sync_step 2 0 (zeroed, Trapped) = (zeroed, Trapped)"
  by code_simp

text \<open>
  Claim C1, amended. Units \<open>0 .. blockNum - 1\<close> call \<open>sync\<close> with \<open>blockNum > 1\<close> on a
  zero-filled object, again and again, and store to global memory between their calls; the
  actions are interleaved in any order. Then, at every moment:
  \<^item> if the steps taken inside \<open>sync\<close> so far can be cut into at least
    \<open>enough_passes\<close> passes in each of which every unit took a step, then every unit has
    returned from its first \<open>r\<close> calls, or some unit is trapped by the fault of the
    spin-wait;
  \<^item> with a negative \<open>maxSpinCount\<close> no unit is ever trapped, so that under such a
    schedule all calls return;
  \<^item> no unit is more than one call ahead of another, and when unit \<open>i\<close> has returned from
    a call that unit \<open>j\<close> has not returned from, \<open>j\<close> is inside that call and past its
    \<open>atomicInc\<close>: no unit returns before all units have called;
  \<^item> memory holds the stores issued so far, in the order of issue;
  \<^item> each store in the log was issued before a call its unit has made or will make next;
  \<^item> whatever happens later, every store issued from now on is issued before a call
    whose number is greater than the number of calls any unit \<open>j\<close> has returned from by now.
    So once a unit has returned from its call number \<open>r\<close>, every store that any unit issued
    before its own call number \<open>r\<close> or an earlier one is already in memory;
  \<^item> the next step of a unit traps it exactly when the bound is enabled, the unit is in
    the spin-wait with its spin count at \<open>maxSpinCount\<close>, and the flag of its round has
    not been written yet.
\<close>

theorem sync_returns_unless_spin_bound_runs_out:
  assumes "1 <s blockNum" and "\<forall>a\<in>set acts. unit_of a < unat blockNum"
    and "k = exec blockNum maxSpinCount acts (boot zeroed g)"
  shows
    "(\<forall>ps r. syncs acts = concat ps \<and> fair_passes (unat blockNum) ps
         \<and> enough_passes (unat blockNum) maxSpinCount r \<le> length ps \<longrightarrow>
       (\<forall>i<unat blockNum. r \<le> rets (conf k) i)
       \<or> (\<exists>i<unat blockNum. pcs (conf k) i = Trapped))
     \<and> (maxSpinCount <s 0 \<longrightarrow> (\<forall>i<unat blockNum. pcs (conf k) i \<noteq> Trapped))
     \<and> (\<forall>i<unat blockNum. \<forall>j<unat blockNum.
          rets (conf k) i \<le> Suc (rets (conf k) j)
          \<and> (rets (conf k) i = Suc (rets (conf k) j) \<longrightarrow>
               is_AtPoll (pcs (conf k) j) \<or> is_AtStore (pcs (conf k) j)
               \<or> pcs (conf k) j = Trapped))
     \<and> gmem k = replay g (store_log k)
     \<and> (\<forall>e\<in>set (store_log k).
          1 \<le> before_call e \<and> before_call e \<le> Suc (rets (conf k) (by_unit e)))
     \<and> (\<forall>j<unat blockNum. \<forall>later. (\<forall>a\<in>set later. unit_of a < unat blockNum) \<longrightarrow>
          (\<exists>new. store_log (exec blockNum maxSpinCount later k) = store_log k @ new
                \<and> (\<forall>e\<in>set new. rets (conf k) j < before_call e)))
     \<and> (\<forall>i<unat blockNum. pcs (conf k) i \<noteq> Trapped \<longrightarrow>
          (pcs (unit_step blockNum maxSpinCount i (conf k)) i = Trapped) =
          (0 \<le>s maxSpinCount \<and> (\<exists>t. pcs (conf k) i = AtPoll t maxSpinCount)
           \<and> rets (conf k) i = flips (conf k)))"
proof -
  let ?N = "unat blockNum"
  note N = refl [of ?N] sless_one_unat [OF assms(1)]
  have c: "conf k = run blockNum maxSpinCount (syncs acts) (start zeroed)"
    unfolding assms(3) conf_exec by (simp add: boot_def)
  note v = syncs_units [OF assms(2)]
  have I: "inv ?N (conf k)" unfolding c by (rule inv_of_run [OF assms(1) v])
  have live: "\<forall>ps r. syncs acts = concat ps \<and> fair_passes ?N ps
         \<and> enough_passes ?N maxSpinCount r \<le> length ps \<longrightarrow>
       (\<forall>i<?N. r \<le> rets (conf k) i) \<or> (\<exists>i<?N. pcs (conf k) i = Trapped)"
  proof (intro allI impI)
    fix ps r
    assume h: "syncs acts = concat ps \<and> fair_passes ?N ps
         \<and> enough_passes ?N maxSpinCount r \<le> length ps"
    then have c': "conf k = run blockNum maxSpinCount (concat ps) (start zeroed)"
      using c by simp
    from h have f: "fair_passes ?N ps" and l: "enough_passes ?N maxSpinCount r \<le> length ps"
      by simp_all
    show "(\<forall>i<?N. r \<le> rets (conf k) i) \<or> (\<exists>i<?N. pcs (conf k) i = Trapped)"
      by (rule fair_schedule_returns_or_traps [OF N f l c'])
  qed
  have nofault: "maxSpinCount <s 0 \<longrightarrow> (\<forall>i<?N. pcs (conf k) i \<noteq> Trapped)"
  proof (intro impI allI)
    fix i
    assume "maxSpinCount <s 0"
    then have d: "\<not> 0 \<le>s maxSpinCount" by (simp add: not_sle_zero)
    have "pcs (start zeroed) i \<noteq> Trapped" by (simp add: start_def)
    then show "pcs (conf k) i \<noteq> Trapped"
      unfolding c by (rule no_fault_when_disabled_run [OF d])
  qed
  have barrier: "\<forall>i<?N. \<forall>j<?N.
          rets (conf k) i \<le> Suc (rets (conf k) j)
          \<and> (rets (conf k) i = Suc (rets (conf k) j) \<longrightarrow>
               is_AtPoll (pcs (conf k) j) \<or> is_AtStore (pcs (conf k) j)
               \<or> pcs (conf k) j = Trapped)"
    using inv_barrier [OF I] by blast
  have mem: "gmem k = replay g (store_log k)"
    unfolding assms(3) by (rule gmem_exec)
  have tags: "\<forall>e\<in>set (store_log k).
          1 \<le> before_call e \<and> before_call e \<le> Suc (rets (conf k) (by_unit e))"
    unfolding assms(3) by (rule store_tags_exec)
  have vis: "\<forall>j<?N. \<forall>later. (\<forall>a\<in>set later. unit_of a < ?N) \<longrightarrow>
          (\<exists>new. store_log (exec blockNum maxSpinCount later k) = store_log k @ new
                \<and> (\<forall>e\<in>set new. rets (conf k) j < before_call e))"
    using later_stores [OF N I] by blast
  have trap: "\<forall>i<?N. pcs (conf k) i \<noteq> Trapped \<longrightarrow>
          (pcs (unit_step blockNum maxSpinCount i (conf k)) i = Trapped) =
          (0 \<le>s maxSpinCount \<and> (\<exists>t. pcs (conf k) i = AtPoll t maxSpinCount)
           \<and> rets (conf k) i = flips (conf k))"
    using trap_step_iff [OF I] by blast
  from live nofault barrier mem tags vis trap show ?thesis by blast
qed

theorem sync_returns_unless_spin_bound_runs_out_witness:
  "1 \<le> rets (conf (exec 3 (- 1)
         (Store 0 7 42 # Store 1 8 5 # Store 2 7 6 # map Sync (concat (replicate 30 [0, 1, 2])))
         (boot zeroed (\<lambda>a. 0)))) 0
   \<and> 1 \<le> rets (conf (exec 3 (- 1)
         (Store 0 7 42 # Store 1 8 5 # Store 2 7 6 # map Sync (concat (replicate 30 [0, 1, 2])))
         (boot zeroed (\<lambda>a. 0)))) 1
   \<and> 1 \<le> rets (conf (exec 3 (- 1)
         (Store 0 7 42 # Store 1 8 5 # Store 2 7 6 # map Sync (concat (replicate 30 [0, 1, 2])))
         (boot zeroed (\<lambda>a. 0)))) 2
   \<and> pcs (conf (exec 3 (- 1)
         (Store 0 7 42 # Store 1 8 5 # Store 2 7 6 # map Sync (concat (replicate 30 [0, 1, 2])))
         (boot zeroed (\<lambda>a. 0)))) 0 \<noteq> Trapped
   \<and> rets (conf (exec 3 (- 1)
         (Store 0 7 42 # Store 1 8 5 # Store 2 7 6 # map Sync (concat (replicate 30 [0, 1, 2])))
         (boot zeroed (\<lambda>a. 0)))) 0 \<le> Suc (rets (conf (exec 3 (- 1)
         (Store 0 7 42 # Store 1 8 5 # Store 2 7 6 # map Sync (concat (replicate 30 [0, 1, 2])))
         (boot zeroed (\<lambda>a. 0)))) 2)
   \<and> gmem (exec 3 (- 1)
         (Store 0 7 42 # Store 1 8 5 # Store 2 7 6 # map Sync (concat (replicate 30 [0, 1, 2])))
         (boot zeroed (\<lambda>a. 0))) 7 = 6
   \<and> gmem (exec 3 (- 1)
         (Store 0 7 42 # Store 1 8 5 # Store 2 7 6 # map Sync (concat (replicate 30 [0, 1, 2])))
         (boot zeroed (\<lambda>a. 0))) 8 = 5
   \<and> before_call (StoreEvent 0 1 7 42)
       \<le> Suc (rets (conf (exec 3 (- 1)
         (Store 0 7 42 # Store 1 8 5 # Store 2 7 6 # map Sync (concat (replicate 30 [0, 1, 2])))
         (boot zeroed (\<lambda>a. 0)))) (by_unit (StoreEvent 0 1 7 42)))
   \<and> rets (conf (exec 3 (- 1)
         (Store 0 7 42 # Store 1 8 5 # Store 2 7 6 # map Sync (concat (replicate 30 [0, 1, 2])))
         (boot zeroed (\<lambda>a. 0)))) 1
       < before_call (last (store_log (exec 3 (- 1) [Store 0 9 1] (exec 3 (- 1)
         (Store 0 7 42 # Store 1 8 5 # Store 2 7 6 # map Sync (concat (replicate 30 [0, 1, 2])))
         (boot zeroed (\<lambda>a. 0))))))
   \<and> pcs (unit_step 3 (- 1) 0 (conf (exec 3 (- 1)
         (Store 0 7 42 # Store 1 8 5 # Store 2 7 6 # map Sync (concat (replicate 30 [0, 1, 2])))
         (boot zeroed (\<lambda>a. 0))))) 0 \<noteq> Trapped"
proof -
  let ?acts = "Store 0 7 42 # Store 1 8 5 # Store 2 7 6 # map Sync (concat (replicate 30 [0, 1, 2]))"
  let ?k = "exec 3 (- 1) ?acts (boot zeroed (\<lambda>a. 0))"
  have k1: "1 <s (3 :: 32 word)" by (simp add: word_sless_alt)
  have u3: "unat (3 :: 32 word) = 3" by simp
  have k2: "\<forall>a\<in>set ?acts. unit_of a < unat (3 :: 32 word)" by code_simp
  note t = sync_returns_unless_spin_bound_runs_out [OF k1 k2 refl, where maxSpinCount = "- 1"
      and g = "\<lambda>a. 0", unfolded u3]
  have h: "syncs ?acts = concat (replicate 30 [0, 1, 2]) \<and> fair_passes 3 (replicate 30 [0, 1, 2])
           \<and> enough_passes 3 (- 1) 1 \<le> length (replicate 30 [0 :: nat, 1, 2])"
    by code_simp
  note live = t [THEN conjunct1, rule_format, OF h]
  have neg: "(- 1 :: 64 word) <s 0" by (simp add: word_sless_alt)
  note nt = t [THEN conjunct2, THEN conjunct1, rule_format, OF neg]
  have l0: "(0 :: nat) < 3" and l1: "(1 :: nat) < 3" and l2: "(2 :: nat) < 3" by simp_all
  from live nt have all: "\<forall>i<3. 1 \<le> rets (conf ?k) i" by blast
  note a0 = all [rule_format, OF l0]
  note a1 = all [rule_format, OF l1]
  note a2 = all [rule_format, OF l2]
  note c = nt [OF l0]
  note d = t [THEN conjunct2, THEN conjunct2, THEN conjunct1, rule_format, OF l0 l2, THEN conjunct1]
  note m = t [THEN conjunct2, THEN conjunct2, THEN conjunct2, THEN conjunct1]
  have log: "store_log ?k = [StoreEvent 0 1 7 42, StoreEvent 1 1 8 5, StoreEvent 2 1 7 6]"
    by code_simp
  have e: "gmem ?k 7 = 6" unfolding m log by (simp add: replay_def)
  have f: "gmem ?k 8 = 5" unfolding m log by (simp add: replay_def)
  have mem: "StoreEvent 0 1 7 42 \<in> set (store_log ?k)" unfolding log by simp
  note tg = t [THEN conjunct2, THEN conjunct2, THEN conjunct2, THEN conjunct2, THEN conjunct1,
      rule_format, OF mem, THEN conjunct2]
  have v: "\<And>a. a \<in> set [Store 0 9 1] \<Longrightarrow> unit_of a < 3" by simp
  note vis = t [THEN conjunct2, THEN conjunct2, THEN conjunct2, THEN conjunct2, THEN conjunct2,
      THEN conjunct1, rule_format, OF l1 v]
  then obtain new where
    new: "store_log (exec 3 (- 1) [Store 0 9 1] ?k) = store_log ?k @ new"
      "\<forall>e\<in>set new. rets (conf ?k) 1 < before_call e" by blast
  have log': "store_log (exec 3 (- 1) [Store 0 9 1] ?k)
      = [StoreEvent 0 1 7 42, StoreEvent 1 1 8 5, StoreEvent 2 1 7 6, StoreEvent 0 7 9 1]"
    by code_simp
  from new(1) have "new = [StoreEvent 0 7 9 1]" unfolding log log' by simp
  with new(2) have "rets (conf ?k) 1 < before_call (StoreEvent 0 7 9 1)" by simp
  then have g: "rets (conf ?k) 1
      < before_call (last (store_log (exec 3 (- 1) [Store 0 9 1] ?k)))"
    unfolding log' by simp
  note trap = t [THEN conjunct2, THEN conjunct2, THEN conjunct2, THEN conjunct2, THEN conjunct2,
      THEN conjunct2, rule_format, OF l0 c]
  have dis: "\<not> 0 \<le>s (- 1 :: 64 word)" by (simp add: word_sle_eq)
  have w: "pcs (unit_step 3 (- 1) 0 (conf ?k)) 0 \<noteq> Trapped"
    unfolding trap using dis by simp
  show ?thesis
    by (intro conjI) (rule a0 a1 a2 c d e f tg g w)+
qed

section \<open>Properties of the helpers\<close>

subsection \<open>The capture guard\<close>

lemma plainI:
  assumes "\<And>w. capture_mode (snd (f w)) = capture_mode w"
    and "\<And>w. \<exists>new. issued (snd (f w)) = issued w @ new \<and> (\<forall>c\<in>set new. snd c = capture_mode w)"
  shows "plain f"
  using assms by (simp add: plain_def)

lemma plain_mode: "plain f \<Longrightarrow> capture_mode (snd (f w)) = capture_mode w"
  by (simp add: plain_def)

lemma plain_issued:
  "plain f \<Longrightarrow> \<exists>new. issued (snd (f w)) = issued w @ new \<and> (\<forall>c\<in>set new. snd c = capture_mode w)"
  by (simp add: plain_def)

lemma plain_note_call:
  "capture_mode (note_call a w) = capture_mode w" "issued (note_call a w) = issued w @ [(a, capture_mode w)]"
  by (simp_all add: note_call_def)

lemma plain_device_malloc: "plain (device_malloc name n r)"
  by (rule plainI) (simp_all add: device_malloc_def Let_def plain_note_call)

lemma plain_cudaMalloc: "plain (cudaMalloc n r)"
  by (simp add: cudaMalloc_def plain_device_malloc)

lemma plain_hipExtMallocWithFlags: "plain (hipExtMallocWithFlags n r)"
  by (simp add: hipExtMallocWithFlags_def plain_device_malloc)

lemma plain_cudaHostAlloc: "plain (cudaHostAlloc n r)"
  by (rule plainI) (simp_all add: cudaHostAlloc_def Let_def plain_note_call)

lemma plain_enqueue: "plain (enqueue name stream op r)"
  by (rule plainI) (simp_all add: enqueue_def Let_def plain_note_call)

lemma plain_cudaMemsetAsync: "plain (cudaMemsetAsync p v n stream r)"
  by (simp add: cudaMemsetAsync_def plain_enqueue)

lemma plain_cudaMemcpyAsync: "plain (cudaMemcpyAsync dst src n kind stream r)"
  by (simp add: cudaMemcpyAsync_def plain_enqueue)

lemma plain_cudaStreamSynchronize: "plain (cudaStreamSynchronize stream r)"
  by (rule plainI) (simp_all add: cudaStreamSynchronize_def Let_def plain_note_call)

lemma plain_cudaFree: "plain (cudaFree p r)"
  by (rule plainI) (simp_all add: cudaFree_def Let_def plain_note_call)

lemma plain_cudaFreeHost: "plain (cudaFreeHost p r)"
  by (rule plainI) (simp_all add: cudaFreeHost_def Let_def plain_note_call)

lemma plain_cudaStreamCreateWithFlags: "plain (cudaStreamCreateWithFlags r)"
  by (rule plainI) (simp_all add: cudaStreamCreateWithFlags_def Let_def plain_note_call)

lemma plain_returns: "plain (returns x)"
  by (rule plainI) (simp_all add: returns_def)

lemma plain_MSCCLPP_CUDATHROW:
  assumes "plain cmd"
  shows "plain (MSCCLPP_CUDATHROW cmd_name cmd)"
proof -
  have "snd (MSCCLPP_CUDATHROW cmd_name cmd w) = snd (cmd w)" for w
    by (simp add: MSCCLPP_CUDATHROW_def split: prod.splits)
  with assms show ?thesis by (simp add: plain_def)
qed

lemma plain_and_then:
  assumes m: "plain m" and f: "\<And>x. plain (f x)"
  shows "plain (and_then m f)"
proof (rule plainI)
  fix w
  obtain r w1 where mw: "m w = (r, w1)" by (cases "m w")
  have m1: "capture_mode w1 = capture_mode w" using plain_mode [OF m, of w] mw by simp
  from plain_issued [OF m, of w] mw obtain n1 where n1: "issued w1 = issued w @ n1"
    "\<forall>c\<in>set n1. snd c = capture_mode w" by auto
  show "capture_mode (snd (and_then m f w)) = capture_mode w"
  proof (cases r)
    case (Inl e)
    with mw m1 show ?thesis by (simp add: and_then_def)
  next
    case (Inr x)
    with mw m1 plain_mode [OF f, of x w1] show ?thesis by (simp add: and_then_def)
  qed
  show "\<exists>new. issued (snd (and_then m f w)) = issued w @ new \<and> (\<forall>c\<in>set new. snd c = capture_mode w)"
  proof (cases r)
    case (Inl e)
    with mw n1 show ?thesis by (simp add: and_then_def)
  next
    case (Inr x)
    from plain_issued [OF f, of x w1] obtain n2 where n2: "issued (snd (f x w1)) = issued w1 @ n2"
      "\<forall>c\<in>set n2. snd c = capture_mode w1" by blast
    have "issued (snd (f x w1)) = issued w @ (n1 @ n2)" using n1 n2 by simp
    moreover have "\<forall>c\<in>set (n1 @ n2). snd c = capture_mode w" using n1 n2 m1 by auto
    ultimately show ?thesis using Inr mw unfolding and_then_def by (simp del: append_assoc)
  qed
qed

lemma plain_cudaStreamDestroy:
  "capture_mode (cudaStreamDestroy stream w) = capture_mode w"
  "issued (cudaStreamDestroy stream w) = issued w @ [(CudaStreamDestroy, capture_mode w)]"
  by (simp_all add: cudaStreamDestroy_def Let_def plain_note_call)

lemma plain_CudaStreamWithFlags:
  assumes sc: "\<And>stream. plain (scope stream)"
  shows "plain (CudaStreamWithFlags r scope)"
proof (rule plainI)
  fix w
  let ?c = "MSCCLPP_CUDATHROW ''cudaStreamCreateWithFlags'' (cudaStreamCreateWithFlags r)"
  have pc: "plain ?c"
    by (rule plain_MSCCLPP_CUDATHROW [OF plain_cudaStreamCreateWithFlags])
  obtain res w1 where cw: "?c w = (res, w1)" by (cases "?c w")
  have m1: "capture_mode w1 = capture_mode w" using plain_mode [OF pc, of w] cw by simp
  from plain_issued [OF pc, of w] cw obtain n1 where n1: "issued w1 = issued w @ n1"
    "\<forall>c\<in>set n1. snd c = capture_mode w" by auto
  show "capture_mode (snd (CudaStreamWithFlags r scope w)) = capture_mode w"
  proof (cases res)
    case (Inl e)
    with cw m1 show ?thesis by (simp add: CudaStreamWithFlags_def)
  next
    case (Inr stream)
    obtain res2 w2 where sw: "scope stream w1 = (res2, w2)" by (cases "scope stream w1")
    with Inr cw m1 plain_mode [OF sc, of stream w1] show ?thesis
      by (simp add: CudaStreamWithFlags_def plain_cudaStreamDestroy)
  qed
  show "\<exists>new. issued (snd (CudaStreamWithFlags r scope w)) = issued w @ new
      \<and> (\<forall>c\<in>set new. snd c = capture_mode w)"
  proof (cases res)
    case (Inl e)
    with cw n1 show ?thesis by (simp add: CudaStreamWithFlags_def)
  next
    case (Inr stream)
    obtain res2 w2 where sw: "scope stream w1 = (res2, w2)" by (cases "scope stream w1")
    have m2: "capture_mode w2 = capture_mode w"
      using plain_mode [OF sc, of stream w1] sw m1 by simp
    from plain_issued [OF sc, of stream w1] sw obtain n2 where n2: "issued w2 = issued w1 @ n2"
      "\<forall>c\<in>set n2. snd c = capture_mode w1" by auto
    have "issued (cudaStreamDestroy stream w2)
        = issued w @ (n1 @ n2 @ [(CudaStreamDestroy, capture_mode w)])"
      using n1 n2 m2 by (simp add: plain_cudaStreamDestroy)
    moreover have "\<forall>c\<in>set (n1 @ n2 @ [(CudaStreamDestroy, capture_mode w)]). snd c = capture_mode w"
      using n1 n2 m1 by auto
    ultimately show ?thesis using Inr cw sw unfolding CudaStreamWithFlags_def
      by (simp del: append_assoc)
  qed
qed

lemma guarded_AvoidCudaGraphCaptureGuard:
  assumes sc: "plain scope"
  shows "guarded (AvoidCudaGraphCaptureGuard scope)"
  unfolding guarded_def
proof (intro allI conjI)
  fix w :: world
  let ?w1 = "w\<lparr>capture_mode := cudaStreamCaptureModeRelaxed\<rparr>"
  obtain res w2 where sw: "scope ?w1 = (res, w2)" by (cases "scope ?w1")
  have g: "AvoidCudaGraphCaptureGuard scope w = (res, w2\<lparr>capture_mode := capture_mode w\<rparr>)"
    using sw by (simp add: AvoidCudaGraphCaptureGuard_def cudaThreadExchangeStreamCaptureMode_def)
  show "capture_mode (snd (AvoidCudaGraphCaptureGuard scope w)) = capture_mode w"
    by (simp add: g)
  from plain_issued [OF sc, of ?w1] sw obtain new where "issued w2 = issued w @ new"
    "\<forall>c\<in>set new. snd c = cudaStreamCaptureModeRelaxed" by auto
  then show "\<exists>new. issued (snd (AvoidCudaGraphCaptureGuard scope w)) = issued w @ new
      \<and> (\<forall>c\<in>set new. snd c = cudaStreamCaptureModeRelaxed)"
    by (simp add: g)
qed

lemma plain_memset_returns: "plain (\<lambda>w. returns x (memset p v n w))"
  by (rule plainI) (simp_all add: returns_def memset_def)

lemmas plain_intros =
  plain_and_then plain_MSCCLPP_CUDATHROW plain_CudaStreamWithFlags plain_returns
  plain_cudaMalloc plain_hipExtMallocWithFlags plain_cudaHostAlloc plain_cudaMemsetAsync
  plain_cudaMemcpyAsync plain_cudaStreamSynchronize plain_cudaFree plain_cudaFreeHost
  plain_memset_returns

lemma guarded_cudaCalloc: "guarded (cudaCalloc sizeofT oc nelem)"
  unfolding cudaCalloc_def
  by (intro guarded_AvoidCudaGraphCaptureGuard plain_intros)

lemma guarded_cudaExtCalloc: "guarded (cudaExtCalloc hip sizeofT oc nelem)"
  unfolding cudaExtCalloc_def
  by (cases hip) (simp_all, (intro guarded_AvoidCudaGraphCaptureGuard plain_intros)+)

lemma guarded_cudaHostCalloc: "guarded (cudaHostCalloc sizeofT oc nelem)"
  unfolding cudaHostCalloc_def
  by (intro guarded_AvoidCudaGraphCaptureGuard plain_intros)

lemma guarded_CudaDeleter: "guarded (CudaDeleter oc p)"
  unfolding CudaDeleter_def
  by (intro guarded_AvoidCudaGraphCaptureGuard plain_intros)

lemma guarded_CudaHostDeleter: "guarded (CudaHostDeleter oc p)"
  unfolding CudaHostDeleter_def
  by (intro guarded_AvoidCudaGraphCaptureGuard plain_intros)

lemma guarded_memcpyCudaAsync: "guarded (memcpyCudaAsync sizeofT oc dst src nelem stream kind)"
  unfolding memcpyCudaAsync_def
  by (intro guarded_AvoidCudaGraphCaptureGuard plain_intros)

lemma guarded_memcpyCuda: "guarded (memcpyCuda sizeofT oc dst src nelem kind)"
  unfolding memcpyCuda_def
  by (intro guarded_AvoidCudaGraphCaptureGuard plain_intros)

lemma safeAlloc_eq: "safeAlloc alloc Deleter nelem w = alloc nelem w"
  by (simp add: safeAlloc_def Let_def split: prod.splits sum.splits)

lemma guarded_safeAlloc: "guarded (alloc nelem) \<Longrightarrow> guarded (safeAlloc alloc Deleter nelem)"
  by (simp add: guarded_def safeAlloc_eq)

text \<open>
  Claim C8. Every allocation, copy and free helper runs its runtime calls inside the
  avoid-capture guard: whatever the runtime answers and whether the helper returns or
  throws, the thread's capture mode afterwards is the caller's, and every runtime call
  the helper issued was issued in relaxed mode, where it is not captured. This holds for
  the three allocators, the two deleters, the two copies, and the safe-allocation
  wrappers built from them.
\<close>

theorem helpers_run_under_capture_guard:
  "guarded (cudaCalloc sizeofT oc nelem)
   \<and> guarded (cudaExtCalloc hip sizeofT oc nelem)
   \<and> guarded (cudaHostCalloc sizeofT oc nelem)
   \<and> guarded (CudaDeleter oc p)
   \<and> guarded (CudaHostDeleter oc p)
   \<and> guarded (memcpyCudaAsync sizeofT oc dst src nelem stream kind)
   \<and> guarded (memcpyCuda sizeofT oc dst src nelem kind)
   \<and> guarded (allocSharedCuda sizeofT oc nelem)
   \<and> guarded (allocExtSharedCuda hip sizeofT oc nelem)
   \<and> guarded (allocCudaHost sizeofT oc nelem)"
  unfolding allocSharedCuda_def allocExtSharedCuda_def allocCudaHost_def
  by (intro conjI guarded_safeAlloc guarded_cudaCalloc guarded_cudaExtCalloc
      guarded_cudaHostCalloc guarded_CudaDeleter guarded_CudaHostDeleter
      guarded_memcpyCudaAsync guarded_memcpyCuda)

theorem helpers_run_under_capture_guard_witness:
  "capture_mode (snd (cudaCalloc 12 (all_succeed\<lparr>on_streamSynchronize := 700\<rparr>) 1 example_world))
     = capture_mode example_world
   \<and> fst (cudaCalloc 12 (all_succeed\<lparr>on_streamSynchronize := 700\<rparr>) 1 example_world)
     = Inl (CudaError ''cudaStreamSynchronize'' 700)
   \<and> capture_mode example_world = cudaStreamCaptureModeGlobal
   \<and> capture_mode (snd (memcpyCuda 4 all_succeed 100 200 3 cudaMemcpyDefault example_world))
     = capture_mode example_world
   \<and> issued (snd (memcpyCuda 4 all_succeed 100 200 3 cudaMemcpyDefault example_world))
     = [(CudaStreamCreateWithFlags, cudaStreamCaptureModeRelaxed),
        (CudaMemcpyAsync, cudaStreamCaptureModeRelaxed),
        (CudaStreamSynchronize, cudaStreamCaptureModeRelaxed),
        (CudaStreamDestroy, cudaStreamCaptureModeRelaxed)]"
proof -
  note t1 = helpers_run_under_capture_guard
    [where sizeofT = 12 and oc = "all_succeed\<lparr>on_streamSynchronize := 700\<rparr>" and nelem = 1]
  note t2 = helpers_run_under_capture_guard
    [where sizeofT = 4 and oc = all_succeed and dst = 100 and src = 200 and nelem = 3
       and kind = cudaMemcpyDefault]
  have g1: "guarded (cudaCalloc 12 (all_succeed\<lparr>on_streamSynchronize := 700\<rparr>) 1)"
    by (rule t1 [THEN conjunct1])
  have g2: "guarded (memcpyCuda 4 all_succeed 100 200 3 cudaMemcpyDefault)"
    by (rule t2 [THEN conjunct2, THEN conjunct2, THEN conjunct2, THEN conjunct2,
        THEN conjunct2, THEN conjunct2, THEN conjunct1])
  have a: "capture_mode (snd (cudaCalloc 12 (all_succeed\<lparr>on_streamSynchronize := 700\<rparr>) 1 example_world))
     = capture_mode example_world"
    using g1 unfolding guarded_def by blast
  have b: "fst (cudaCalloc 12 (all_succeed\<lparr>on_streamSynchronize := 700\<rparr>) 1 example_world)
     = Inl (CudaError ''cudaStreamSynchronize'' 700)"
    by code_simp
  have c: "capture_mode example_world = cudaStreamCaptureModeGlobal"
    by (simp add: example_world_def)
  have d: "capture_mode (snd (memcpyCuda 4 all_succeed 100 200 3 cudaMemcpyDefault example_world))
     = capture_mode example_world"
    using g2 unfolding guarded_def by blast
  have e: "issued (snd (memcpyCuda 4 all_succeed 100 200 3 cudaMemcpyDefault example_world))
     = [(CudaStreamCreateWithFlags, cudaStreamCaptureModeRelaxed),
        (CudaMemcpyAsync, cudaStreamCaptureModeRelaxed),
        (CudaStreamSynchronize, cudaStreamCaptureModeRelaxed),
        (CudaStreamDestroy, cudaStreamCaptureModeRelaxed)]"
    by code_simp
  show ?thesis by (intro conjI) (rule a b c d e)+
qed

subsection \<open>Zero-filled allocations\<close>

lemmas helper_defs =
  AvoidCudaGraphCaptureGuard_def CudaStreamWithFlags_def
  cudaThreadExchangeStreamCaptureMode_def MSCCLPP_CUDATHROW_def and_then_def returns_def
  cudaStreamCreateWithFlags_def cudaStreamDestroy_def cudaMalloc_def hipExtMallocWithFlags_def
  device_malloc_def cudaHostAlloc_def cudaMemsetAsync_def cudaMemcpyAsync_def enqueue_def
  cudaStreamSynchronize_def cudaFree_def cudaFreeHost_def memset_def note_call_def Let_def

lemma cudaCalloc_success:
  assumes "cudaCalloc sizeofT oc nelem w = (Inr p, w')"
  shows "(p, nelem * sizeofT) \<in> set (device_blocks w')"
    and "\<exists>m. memory w' = apply_op m (MemsetOp p 0 (nelem * sizeofT))"
  using assms
  by (auto simp: cudaCalloc_def helper_defs split: prod.splits sum.splits if_splits)

lemma cudaExtCalloc_success:
  assumes "cudaExtCalloc hip sizeofT oc nelem w = (Inr p, w')"
  shows "(p, nelem * sizeofT) \<in> set (device_blocks w')"
    and "\<exists>m. memory w' = apply_op m (MemsetOp p 0 (nelem * sizeofT))"
  using assms
  by (auto simp: cudaExtCalloc_def helper_defs split: prod.splits sum.splits if_splits)

lemma cudaHostCalloc_success:
  assumes "cudaHostCalloc sizeofT oc nelem w = (Inr p, w')"
  shows "(p, nelem * sizeofT) \<in> set (host_blocks w')"
    and "\<exists>m. memory w' = apply_op m (MemsetOp p 0 (nelem * sizeofT))"
  using assms
  by (auto simp: cudaHostCalloc_def helper_defs split: prod.splits sum.splits if_splits)

lemma read_int_zero:
  assumes "m a = 0" "m (a + 1) = 0" "m (a + 2) = 0" "m (a + 3) = 0"
  shows "read_int m a = 0"
  using assms by (simp add: read_int_def word_rcat_def)

lemma in_block_offset: "k < n \<Longrightarrow> in_block q n (q + k)"
  by (simp add: in_block_def)

lemma DeviceSyncer_at_zero:
  assumes z: "\<And>a. in_block q 12 a \<Longrightarrow> m a = 0"
  shows "DeviceSyncer_at m q = zeroed"
proof -
  have b: "m (q + k) = 0" if "k < 12" for k
    by (rule z [OF in_block_offset [OF that]])
  have "m q = 0" using b [of 0] by simp
  moreover have "m (q + 1) = 0" "m (q + 2) = 0" "m (q + 3) = 0"
    "m (q + 4) = 0" "m (q + 5) = 0" "m (q + 6) = 0" "m (q + 7) = 0"
    "m (q + 8) = 0" "m (q + 9) = 0" "m (q + 10) = 0" "m (q + 11) = 0"
    by (rule b, simp)+
  ultimately show ?thesis
    by (simp add: DeviceSyncer_at_def zeroed_def read_int_zero add.assoc)
qed

lemma element_in_block:
  fixes p nelem i a :: "64 word"
  assumes i: "i < nelem" and fit: "unat nelem * 12 < 2 ^ 64"
    and a: "in_block (p + 12 * i) 12 a"
  shows "in_block p (nelem * 12) a"
proof -
  define d where "d = a - (p + 12 * i)"
  have d: "unat d < 12" using a by (simp add: in_block_def d_def word_less_nat_alt)
  have ui: "unat i < unat nelem" using i by (simp add: word_less_nat_alt)
  have m12: "unat (12 * i) = 12 * unat i"
    using ui fit by (simp add: unat_word_ariths)
  have sum: "unat (12 * i + d) = 12 * unat i + unat d"
    using ui fit d m12 by (simp add: unat_word_ariths)
  have n12: "unat (nelem * 12) = unat nelem * 12"
    using fit by (simp add: unat_word_ariths)
  have "a - p = 12 * i + d" by (simp add: d_def)
  moreover have "unat (12 * i + d) < unat (nelem * 12)"
    using sum n12 d ui by simp
  ultimately show ?thesis by (simp add: in_block_def word_less_nat_alt)
qed

lemma construct_by_value_zeroes:
  "DeviceSyncer_at (memory (construct_DeviceSyncer value_initialisation q w)) q = zeroed"
  by (rule DeviceSyncer_at_zero) (simp add: construct_DeviceSyncer_def memset_def)

lemma construct_in_zero_memory:
  assumes "\<And>a. in_block q 12 a \<Longrightarrow> memory w a = 0"
  shows "DeviceSyncer_at (memory (construct_DeviceSyncer how q w)) q = zeroed"
proof (cases how)
  case default_initialisation
  then show ?thesis using assms by (simp add: construct_DeviceSyncer_def DeviceSyncer_at_zero)
next
  case value_initialisation
  then show ?thesis by (simp add: construct_by_value_zeroes)
qed

lemma calloc_success:
  assumes "alloc \<in> {cudaCalloc sizeofT oc, cudaExtCalloc hip sizeofT oc, cudaHostCalloc sizeofT oc,
              allocSharedCuda sizeofT oc, allocExtSharedCuda hip sizeofT oc,
              allocCudaHost sizeofT oc}"
    and "alloc nelem w = (Inr p, w')"
  shows "(p, nelem * sizeofT) \<in> set (device_blocks w') \<union> set (host_blocks w')"
    and "\<exists>m. memory w' = apply_op m (MemsetOp p 0 (nelem * sizeofT))"
proof -
  from assms(1) consider (dev) "alloc nelem w = cudaCalloc sizeofT oc nelem w"
    | (ext) "alloc nelem w = cudaExtCalloc hip sizeofT oc nelem w"
    | (host) "alloc nelem w = cudaHostCalloc sizeofT oc nelem w"
    by (auto simp: allocSharedCuda_def allocExtSharedCuda_def allocCudaHost_def safeAlloc_eq)
  then have "(p, nelem * sizeofT) \<in> set (device_blocks w') \<union> set (host_blocks w')
      \<and> (\<exists>m. memory w' = apply_op m (MemsetOp p 0 (nelem * sizeofT)))"
  proof cases
    case dev
    with assms(2) cudaCalloc_success [of sizeofT oc nelem w p w'] show ?thesis by simp
  next
    case ext
    with assms(2) cudaExtCalloc_success [of hip sizeofT oc nelem w p w'] show ?thesis by simp
  next
    case host
    with assms(2) cudaHostCalloc_success [of sizeofT oc nelem w p w'] show ?thesis by simp
  qed
  then show "(p, nelem * sizeofT) \<in> set (device_blocks w') \<union> set (host_blocks w')"
    and "\<exists>m. memory w' = apply_op m (MemsetOp p 0 (nelem * sizeofT))" by simp_all
qed

text \<open>
  Claim C6. Whenever one of the zero-initialising allocators returns (the device one, its
  \<open>Ext\<close> variant, the pinned-host one, or one of them behind \<open>safeAlloc\<close>), for any
  element count, the block it returns is a live allocation of \<open>nelem * sizeof(T)\<close> bytes
  (the product as \<open>size_t\<close> computes it) and every byte of it is zero. A
  \<open>DeviceSyncer\<close> constructed anywhere inside the block, by default-initialisation or by
  value-initialisation, has counter, flag and sense
  field all zero; with \<open>T = DeviceSyncer\<close> (12 bytes) and a count whose product does not
  wrap, that is every element of the array.
\<close>

theorem calloc_returns_zero_filled_memory:
  assumes "alloc \<in> {cudaCalloc sizeofT oc, cudaExtCalloc hip sizeofT oc, cudaHostCalloc sizeofT oc,
              allocSharedCuda sizeofT oc, allocExtSharedCuda hip sizeofT oc,
              allocCudaHost sizeofT oc}"
    and "alloc nelem w = (Inr p, w')"
  shows "(p, nelem * sizeofT) \<in> set (device_blocks w') \<union> set (host_blocks w')
    \<and> (\<forall>a. in_block p (nelem * sizeofT) a \<longrightarrow> memory w' a = 0)
    \<and> (\<forall>q. (\<forall>a. in_block q 12 a \<longrightarrow> in_block p (nelem * sizeofT) a) \<longrightarrow>
           DeviceSyncer_at (memory (construct_DeviceSyncer how q w')) q = zeroed)
    \<and> (sizeofT = 12 \<longrightarrow> unat nelem * 12 < 2 ^ 64 \<longrightarrow>
         (\<forall>i<nelem. DeviceSyncer_at (memory (construct_DeviceSyncer how (p + 12 * i) w'))
                        (p + 12 * i) = zeroed))"
proof -
  have blk: "(p, nelem * sizeofT) \<in> set (device_blocks w') \<union> set (host_blocks w')"
    by (rule calloc_success(1) [OF assms])
  from calloc_success(2) [OF assms]
  obtain m where m: "memory w' = apply_op m (MemsetOp p 0 (nelem * sizeofT))" by blast
  have z: "memory w' a = 0" if "in_block p (nelem * sizeofT) a" for a
    using that by (simp add: m)
  have obj: "DeviceSyncer_at (memory (construct_DeviceSyncer how q w')) q = zeroed"
    if inside: "\<forall>a. in_block q 12 a \<longrightarrow> in_block p (nelem * sizeofT) a" for q
  proof -
    show ?thesis
    proof (rule construct_in_zero_memory)
      fix a
      assume "in_block q 12 a"
      with inside have "in_block p (nelem * sizeofT) a" by blast
      then show "memory w' a = 0" by (rule z)
    qed
  qed
  have elem: "DeviceSyncer_at (memory (construct_DeviceSyncer how (p + 12 * i) w')) (p + 12 * i)
      = zeroed"
    if sz: "sizeofT = 12" and fit: "unat nelem * 12 < 2 ^ 64" and i: "i < nelem" for i
  proof (rule obj, intro allI impI)
    fix a
    assume "in_block (p + 12 * i) 12 a"
    then have "in_block p (nelem * 12) a" by (rule element_in_block [OF i fit])
    then show "in_block p (nelem * sizeofT) a" using sz by simp
  qed
  from blk z obj elem show ?thesis by blast
qed

theorem calloc_returns_zero_filled_memory_witness:
  "fst (cudaCalloc 12 all_succeed 2 example_world) = Inr 4096
   \<and> memory example_world 4100 = 255
   \<and> memory (snd (cudaCalloc 12 all_succeed 2 example_world)) 4100 = 0
   \<and> DeviceSyncer_at
        (memory (construct_DeviceSyncer default_initialisation (4096 + 12 * 1)
           (snd (cudaCalloc 12 all_succeed 2 example_world))))
        (4096 + 12 * 1) = zeroed"
proof -
  let ?w' = "snd (cudaCalloc 12 all_succeed 2 example_world)"
  have r: "fst (cudaCalloc 12 all_succeed 2 example_world) = Inr 4096" by code_simp
  then have run: "cudaCalloc 12 all_succeed 2 example_world = (Inr 4096, ?w')"
    by (metis prod.collapse)
  have mem: "cudaCalloc 12 all_succeed
      \<in> {cudaCalloc 12 all_succeed, cudaExtCalloc False 12 all_succeed, cudaHostCalloc 12 all_succeed,
          allocSharedCuda 12 all_succeed, allocExtSharedCuda False 12 all_succeed,
          allocCudaHost 12 all_succeed}" by simp
  note t = calloc_returns_zero_filled_memory [OF mem run, where how = default_initialisation]
  have before: "memory example_world 4100 = 255" by (simp add: example_world_def)
  have blk: "in_block 4096 (2 * 12) (4100 :: 64 word)" by (simp add: in_block_def)
  have a: "memory ?w' 4100 = 0"
    by (rule t [THEN conjunct2, THEN conjunct1, rule_format, OF blk])
  have fit: "unat (2 :: 64 word) * 12 < 2 ^ 64" by simp
  have one: "(1 :: 64 word) < 2" by simp
  have b: "DeviceSyncer_at (memory (construct_DeviceSyncer default_initialisation (4096 + 12 * 1) ?w'))
      (4096 + 12 * 1) = zeroed"
    by (rule t [THEN conjunct2, THEN conjunct2, THEN conjunct2, rule_format, OF refl fit one])
  show ?thesis by (intro conjI) (rule r before a b)+
qed

subsection \<open>Failure inside an allocation\<close>

lemma safeAlloc_leaks_in_general:
  assumes "fst (on_streamCreate oc) = cudaSuccess" and "fst (on_malloc oc) = cudaSuccess"
    and "on_memsetAsync oc \<noteq> cudaSuccess \<or> on_streamSynchronize oc \<noteq> cudaSuccess"
  shows "\<exists>e. fst (allocSharedCuda sizeofT oc nelem w) = Inl e"
    and "device_blocks (snd (allocSharedCuda sizeofT oc nelem w))
         = (snd (on_malloc oc), nelem * sizeofT) # device_blocks w"
    and "streams (snd (allocSharedCuda sizeofT oc nelem w))
         = removeAll (snd (on_streamCreate oc)) (streams w)"
  using assms
  by (auto simp: allocSharedCuda_def safeAlloc_eq cudaCalloc_def helper_defs
      split: prod.splits sum.splits if_splits)

text \<open>
  Claim C7 says that when a step of an allocation fails, everything the earlier steps
  allocated is released before the error reaches the caller. The code does not do that
  for device memory: \<open>allocSharedCuda\<close> of one 12-byte element, in a world with no
  allocation, where the stream is created, \<open>cudaMalloc\<close> hands out the block at 4096 and
  \<open>cudaStreamSynchronize\<close> then fails with status 700. The call throws; the stream has
  been destroyed, but the block at 4096 is still allocated and \<open>cudaFree\<close> was never
  called. (\<open>safeAlloc_eq\<close> shows why: the handler of \<open>safeAlloc\<close> tests a pointer that
  is still null, so \<open>safeAlloc\<close> behaves exactly as the allocator alone.)
\<close>

theorem safeAlloc_leaks_device_memory_on_late_failure:
  "fst (allocSharedCuda 12 (all_succeed\<lparr>on_streamSynchronize := 700\<rparr>) 1 example_world)
     = Inl (CudaError ''cudaStreamSynchronize'' 700)
   \<and> device_blocks example_world = []
   \<and> device_blocks (snd (allocSharedCuda 12 (all_succeed\<lparr>on_streamSynchronize := 700\<rparr>) 1
        example_world)) = [(4096, 12)]
   \<and> streams (snd (allocSharedCuda 12 (all_succeed\<lparr>on_streamSynchronize := 700\<rparr>) 1
        example_world)) = []
   \<and> filter (\<lambda>c. fst c = CudaFree)
        (issued (snd (allocSharedCuda 12 (all_succeed\<lparr>on_streamSynchronize := 700\<rparr>) 1
           example_world))) = []"
  by code_simp

subsection \<open>Construction of the barrier object\<close>

lemma construct_elements_bytes:
  "i < n \<Longrightarrow> in_block (q + 12 * of_nat i) 12 a \<Longrightarrow> memory (construct_elements q n w) a = 0"
proof (induction n)
  case 0
  then show ?case by simp
next
  case (Suc n)
  let ?m = "memory (construct_elements q n w)"
  have step: "memory (construct_elements q (Suc n) w)
      = apply_op ?m (MemsetOp (q + 12 * of_nat n) 0 12)"
    by (simp add: construct_elements_def construct_DeviceSyncer_def memset_def)
  show ?case
  proof (cases "i = n")
    case True
    with Suc.prems(2) show ?thesis by (simp add: step)
  next
    case False
    with Suc.prems have "?m a = 0" by (simp add: Suc.IH)
    then show ?thesis by (simp add: step)
  qed
qed

lemma construct_elements_zero:
  "i < n \<Longrightarrow> DeviceSyncer_at (memory (construct_elements q n w)) (q + 12 * of_nat i) = zeroed"
  by (rule DeviceSyncer_at_zero) (rule construct_elements_bytes)

lemma make_single_success:
  assumes "and_then (safeAlloc (cudaHostCalloc 12 oc) (CudaHostDeleter oc) 1)
       (\<lambda>ptr w. returns ptr (construct_DeviceSyncer value_initialisation ptr w)) w = (Inr q, w')"
  shows "DeviceSyncer_at (memory w') q = zeroed"
proof -
  from assms obtain w1 where "w' = construct_DeviceSyncer value_initialisation q w1"
    by (auto simp: and_then_def returns_def split: prod.splits sum.splits)
  then show ?thesis by (simp add: construct_by_value_zeroes)
qed

lemma make_array_success:
  assumes "and_then (safeAlloc (cudaHostCalloc 12 oc) (CudaHostDeleter oc) nelem)
       (\<lambda>ptr w. returns ptr (construct_elements ptr (unat nelem) w)) w = (Inr q, w')"
    and "i < unat nelem"
  shows "DeviceSyncer_at (memory w') (q + 12 * of_nat i) = zeroed"
proof -
  from assms(1) obtain w1 where "w' = construct_elements q (unat nelem) w1"
    by (auto simp: and_then_def returns_def split: prod.splits sum.splits)
  then show ?thesis using assms(2) by (simp add: construct_elements_zero)
qed

text \<open>
  Claim C10 says that construction leaves the three fields with whatever the memory holds.
  That fails for value-initialisation, the form every construction site of the helpers
  uses: on storage filled with \<open>0xFF\<close>, where the fields read \<open>-1\<close>, the object
  constructed by \<open>new (p) DeviceSyncer()\<close> has all three fields zero.
\<close>

theorem value_initialisation_zero_fills_counterexample:
  "DeviceSyncer_at (memory example_world) 64 = \<lparr> flag = - 1, count = - 1, isIncFlag = - 1 \<rparr>
   \<and> DeviceSyncer_at (memory (construct_DeviceSyncer value_initialisation 64 example_world)) 64
       = \<lparr> flag = 0, count = 0, isIncFlag = 0 \<rparr>"
  by (simp add: example_world_def construct_DeviceSyncer_def memset_def DeviceSyncer_at_def
      read_int_def word_rcat_def in_block_def)

text \<open>
  Claim C10, amended. The constructor is defaulted and writes no field itself.
  Default-initialisation changes nothing: the fields of the object are what the twelve
  bytes there decode to, the all-zero object in zero-filled memory and \<open>-1\<close> everywhere in
  memory filled with \<open>0xFF\<close>; for such an object the zero state comes from zero-filled
  memory only. Value-initialisation zero-fills the twelve bytes and nothing else, so the
  object it constructs is all zero whatever the memory held; that is what
  \<open>makeSharedCudaHost\<close> and \<open>makeUniqueCudaHost\<close> return, one object or an array of
  them. And the zero state matters: on an object whose flag is 1 at the start, with two
  units expected, unit 0 returns from its first \<open>sync\<close> while unit 1 has not even called.
\<close>

theorem DeviceSyncer_construction:
  "construct_DeviceSyncer default_initialisation p w = w
   \<and> DeviceSyncer_at (memory (construct_DeviceSyncer default_initialisation p w)) p =
       \<lparr> flag = read_int (memory w) p, count = read_int (memory w) (p + 4),
         isIncFlag = read_int (memory w) (p + 8) \<rparr>
   \<and> DeviceSyncer_at (\<lambda>a. 0) p = zeroed
   \<and> DeviceSyncer_at (\<lambda>a. 255) p = \<lparr> flag = - 1, count = - 1, isIncFlag = - 1 \<rparr>
   \<and> memory (construct_DeviceSyncer value_initialisation p w)
       = apply_op (memory w) (MemsetOp p 0 12)
   \<and> DeviceSyncer_at (memory (construct_DeviceSyncer value_initialisation p w)) p = zeroed
   \<and> (makeSharedCudaHost oc w = (Inr q, w') \<longrightarrow> DeviceSyncer_at (memory w') q = zeroed)
   \<and> (makeUniqueCudaHost oc w = (Inr q, w') \<longrightarrow> DeviceSyncer_at (memory w') q = zeroed)
   \<and> (makeSharedCudaHost_array oc nelem w = (Inr q, w') \<longrightarrow>
        (\<forall>i<unat nelem. DeviceSyncer_at (memory w') (q + 12 * of_nat i) = zeroed))
   \<and> (makeUniqueCudaHost_array oc nelem w = (Inr q, w') \<longrightarrow>
        (\<forall>i<unat nelem. DeviceSyncer_at (memory w') (q + 12 * of_nat i) = zeroed))
   \<and> rets (run 2 (- 1) [0, 0, 0, 0] (start \<lparr> flag = 1, count = 0, isIncFlag = 0 \<rparr>)) 0 = 1
   \<and> pcs (run 2 (- 1) [0, 0, 0, 0] (start \<lparr> flag = 1, count = 0, isIncFlag = 0 \<rparr>)) 1 = Outside
   \<and> rets (run 2 (- 1) [0, 0, 0, 0] (start \<lparr> flag = 1, count = 0, isIncFlag = 0 \<rparr>)) 1 = 0"
proof (intro conjI)
  show "construct_DeviceSyncer default_initialisation p w = w"
    by (simp add: construct_DeviceSyncer_def)
  show "DeviceSyncer_at (memory (construct_DeviceSyncer default_initialisation p w)) p =
       \<lparr> flag = read_int (memory w) p, count = read_int (memory w) (p + 4),
         isIncFlag = read_int (memory w) (p + 8) \<rparr>"
    by (simp add: construct_DeviceSyncer_def DeviceSyncer_at_def)
  show "DeviceSyncer_at (\<lambda>a. 0) p = zeroed"
    by (rule DeviceSyncer_at_zero) simp
  show "DeviceSyncer_at (\<lambda>a. 255) p = \<lparr> flag = - 1, count = - 1, isIncFlag = - 1 \<rparr>"
    by (simp add: DeviceSyncer_at_def read_int_def word_rcat_def)
  show "memory (construct_DeviceSyncer value_initialisation p w)
       = apply_op (memory w) (MemsetOp p 0 12)"
    by (simp add: construct_DeviceSyncer_def memset_def)
  show "DeviceSyncer_at (memory (construct_DeviceSyncer value_initialisation p w)) p = zeroed"
    by (rule construct_by_value_zeroes)
  show "makeSharedCudaHost oc w = (Inr q, w') \<longrightarrow> DeviceSyncer_at (memory w') q = zeroed"
    unfolding makeSharedCudaHost_def by (intro impI) (rule make_single_success)
  show "makeUniqueCudaHost oc w = (Inr q, w') \<longrightarrow> DeviceSyncer_at (memory w') q = zeroed"
    unfolding makeUniqueCudaHost_def by (intro impI) (rule make_single_success)
  show "makeSharedCudaHost_array oc nelem w = (Inr q, w') \<longrightarrow>
        (\<forall>i<unat nelem. DeviceSyncer_at (memory w') (q + 12 * of_nat i) = zeroed)"
    unfolding makeSharedCudaHost_array_def by (intro impI allI) (rule make_array_success)
  show "makeUniqueCudaHost_array oc nelem w = (Inr q, w') \<longrightarrow>
        (\<forall>i<unat nelem. DeviceSyncer_at (memory w') (q + 12 * of_nat i) = zeroed)"
    unfolding makeUniqueCudaHost_array_def by (intro impI allI) (rule make_array_success)
  show "rets (run 2 (- 1) [0, 0, 0, 0] (start \<lparr> flag = 1, count = 0, isIncFlag = 0 \<rparr>)) 0 = 1"
    by code_simp
  show "pcs (run 2 (- 1) [0, 0, 0, 0] (start \<lparr> flag = 1, count = 0, isIncFlag = 0 \<rparr>)) 1 = Outside"
    by code_simp
  show "rets (run 2 (- 1) [0, 0, 0, 0] (start \<lparr> flag = 1, count = 0, isIncFlag = 0 \<rparr>)) 1 = 0"
    by code_simp
qed

theorem DeviceSyncer_construction_witness:
  "fst (makeSharedCudaHost all_succeed example_world) = Inr 8192
   \<and> DeviceSyncer_at (memory (snd (makeSharedCudaHost all_succeed example_world))) 8192 = zeroed
   \<and> fst (makeUniqueCudaHost_array all_succeed 3 example_world) = Inr 8192
   \<and> DeviceSyncer_at (memory (snd (makeUniqueCudaHost_array all_succeed 3 example_world)))
        (8192 + 12 * of_nat 2) = zeroed"
proof -
  let ?w1 = "snd (makeSharedCudaHost all_succeed example_world)"
  let ?w2 = "snd (makeUniqueCudaHost_array all_succeed 3 example_world)"
  have r1: "fst (makeSharedCudaHost all_succeed example_world) = Inr 8192" by code_simp
  then have e1: "makeSharedCudaHost all_succeed example_world = (Inr 8192, ?w1)"
    by (metis prod.collapse)
  have r2: "fst (makeUniqueCudaHost_array all_succeed 3 example_world) = Inr 8192" by code_simp
  then have e2: "makeUniqueCudaHost_array all_succeed 3 example_world = (Inr 8192, ?w2)"
    by (metis prod.collapse)
  note t1 = DeviceSyncer_construction [where oc = all_succeed and w = example_world
      and q = 8192 and w' = ?w1]
  note t2 = DeviceSyncer_construction [where oc = all_succeed and w = example_world
      and q = 8192 and w' = ?w2 and nelem = 3]
  have a: "DeviceSyncer_at (memory ?w1) 8192 = zeroed"
    by (rule t1 [THEN conjunct2, THEN conjunct2, THEN conjunct2, THEN conjunct2,
        THEN conjunct2, THEN conjunct2, THEN conjunct1, rule_format, OF e1])
  have two: "2 < unat (3 :: 64 word)" by simp
  have b: "DeviceSyncer_at (memory ?w2) (8192 + 12 * of_nat 2) = zeroed"
    by (rule t2 [THEN conjunct2, THEN conjunct2, THEN conjunct2, THEN conjunct2,
        THEN conjunct2, THEN conjunct2, THEN conjunct2, THEN conjunct2, THEN conjunct2,
        THEN conjunct1, rule_format, OF e2 two])
  show ?thesis by (intro conjI) (rule r1 a r2 b)+
qed

end
